theory Spec2Isabelle
  imports Main "HOL-Library.AList" "HOL-Library.Multiset"
begin

section \<open>The task queue of server/queue/fifo.go\<close>

subsection \<open>Data model\<close>

text \<open>
  Modelled from the spec: \<open>model.StatusValue\<close> is declared outside the queue package. The
  queue names one constant of it, \<open>model.StatusFailure\<close>; every other status reaches the
  queue as an argument of \<open>Done\<close>.
\<close>

datatype StatusValue = StatusFailure | StatusOther string

text \<open>
  Go's \<open>error\<close> values the queue returns or passes on. \<open>nil\<close> is \<open>None\<close> of
  \<open>error option\<close>.
\<close>

datatype error = ErrNotFound | ContextCanceled | ContextDeadlineExceeded | ErrMsg string

text \<open>
  Modelled from the spec: \<open>model.Task\<close> is declared outside the queue package. The queue
  reads \<open>ID\<close> and \<open>Dependencies\<close> and writes \<open>AgentID\<close> and \<open>DepStatus\<close>; the
  rest of a task is opaque to it. A task of the model is a non-nil \<open>*model.Task\<close>. Its
  \<open>DepStatus\<close> is a Go map, which may be \<open>nil\<close>: \<open>None\<close> is the nil map and \<open>Some m\<close>
  an allocated one. The lists, the entries and the delivery channels below hold copies of
  tasks: the model assumes that the queue holds no task pointer twice, and what the queue
  writes to a task later shows in the copy that the queue holds. \<open>AgentID\<close> is an \<open>int64\<close>
  that the queue only copies.
\<close>

record Task =
  ID :: string
  AgentID :: int
  Dependencies :: "string list"
  DepStatus :: "(string \<rightharpoonup> StatusValue) option"

text \<open>
  \<open>entry\<close>: the channel \<open>done\<close> is never sent on, only closed, so its state is one bit.
  \<open>time.Time\<close> and \<open>time.Duration\<close> are integers (nanoseconds).
\<close>

record entry =
  item :: Task
  doneClosed :: bool
  error :: "error option"
  deadline :: int

text \<open>
  \<open>worker\<close>: \<open>channel\<close> is the buffered channel of capacity one (\<open>None\<close> when empty);
  \<open>stop\<close> holds the cause once the cancel function has been called.
\<close>

record worker =
  agentID :: int
  filterFn :: "Task \<Rightarrow> bool"
  channel :: "Task option"
  stop :: "string option"

text \<open>
  \<open>fifo\<close>. The maps \<open>running\<close> and \<open>workers\<close> hold pointers, so the model has a store
  for each kind of object: \<open>entries\<close> and \<open>workerObjs\<close> map an address to the object,
  \<open>entryNext\<close> and \<open>workerNext\<close> are the next addresses to allocate. \<open>running\<close> is an
  association list from task id to the address of its entry and \<open>workers\<close> is a list of
  worker addresses: Go leaves the iteration order of a map unspecified, and each list is
  kept in the order in which the next \<open>range\<close> statement yields its keys.
\<close>

record fifo =
  workers :: "nat list"
  running :: "(string \<times> nat) list"
  pending :: "Task list"
  waitingOnDeps :: "Task list"
  extension :: int
  paused :: bool
  entries :: "nat \<Rightarrow> entry"
  entryNext :: nat
  workerObjs :: "nat \<Rightarrow> worker"
  workerNext :: nat

text \<open>
  What the code can do besides returning: \<open>close\<close> of a closed channel panics, a send on
  the full delivery channel blocks for ever with the lock held, and an assignment to an entry
  of a nil map panics.
\<close>

datatype fault = CloseOfClosedChannel | SendOnFullChannel | AssignToNilMap

definition noTask :: Task where
  "noTask = \<lparr>ID = [], AgentID = 0, Dependencies = [], DepStatus = None\<rparr>"

definition noEntry :: entry where
  "noEntry = \<lparr>item = noTask, doneClosed = False, error = None, deadline = 0\<rparr>"

definition noWorker :: worker where
  "noWorker = \<lparr>agentID = 0, filterFn = (\<lambda>_. False), channel = None, stop = None\<rparr>"

definition New :: fifo where
  "New = \<lparr>workers = [], running = [], pending = [], waitingOnDeps = [],
          extension = 600000000000, paused = False,
          entries = (\<lambda>_. noEntry), entryNext = 0,
          workerObjs = (\<lambda>_. noWorker), workerNext = 0\<rparr>"

subsection \<open>Push, Poll\<close>

text \<open>
  \<open>Push\<close>, \<open>PushAtOnce\<close> and \<open>Poll\<close> are their critical sections. The dispatcher pass
  that each of them starts with \<open>go q.process()\<close> runs in a goroutine of its own and takes
  the lock later: it is the separate step \<open>process\<close>.
\<close>

definition Push :: "Task \<Rightarrow> fifo \<Rightarrow> fifo \<times> error option" where
  "Push task q = (q\<lparr>pending := pending q @ [task]\<rparr>, None)"

definition PushAtOnce :: "Task list \<Rightarrow> fifo \<Rightarrow> fifo \<times> error option" where
  "PushAtOnce tasks q =
     (fold (\<lambda>task s. s\<lparr>pending := pending s @ [task]\<rparr>) tasks q, None)"

text \<open>
  \<open>Poll\<close> up to its \<open>select\<close>: the new worker's address and the new state.
\<close>

definition Poll_register :: "int \<Rightarrow> (Task \<Rightarrow> bool) \<Rightarrow> fifo \<Rightarrow> nat \<times> fifo" where
  "Poll_register agent f q =
     (let w = workerNext q
      in (w, q\<lparr>workers := workers q @ [w],
               workerObjs := (workerObjs q)
                 (w := \<lparr>agentID = agent, filterFn = f, channel = None, stop = None\<rparr>),
               workerNext := Suc w\<rparr>))"

text \<open>
  The \<open>select\<close> of \<open>Poll\<close> and of \<open>Wait\<close>: which case fires. \<open>CtxDone e\<close> is
  \<open>ctx.Done()\<close> with \<open>ctx.Err() = e\<close>; \<open>ChanReady\<close> is the other case (the delivery
  channel in \<open>Poll\<close>, the entry's \<open>done\<close> in \<open>Wait\<close>). The result \<open>None\<close> says that
  the case is not ready, so the caller stays blocked.
\<close>

datatype select_case = CtxDone error | ChanReady

definition Poll_select ::
  "nat \<Rightarrow> select_case \<Rightarrow> fifo \<Rightarrow> (fifo \<times> Task option \<times> error option) option" where
  "Poll_select w c q =
     (case c of
        CtxDone e \<Rightarrow> Some (q\<lparr>workers := removeAll w (workers q)\<rparr>, None, Some e)
      | ChanReady \<Rightarrow>
          (case channel (workerObjs q w) of
             None \<Rightarrow> None
           | Some t \<Rightarrow>
               Some (q\<lparr>workerObjs := (workerObjs q)(w := (workerObjs q w)\<lparr>channel := None\<rparr>)\<rparr>,
                     Some t, None)))"

subsection \<open>Done, Error, ErrorAtOnce\<close>

text \<open>
  The scan of \<open>removeFromPending\<close> and of \<open>EvictAtOnce\<close>: the list without its first
  task of that id, or \<open>None\<close> when the scan reaches the end.
\<close>

fun scanRemove :: "string \<Rightarrow> Task list \<Rightarrow> Task list option" where
  "scanRemove taskID [] = None"
| "scanRemove taskID (task # rest) =
     (if ID task = taskID then Some rest
      else map_option (Cons task) (scanRemove taskID rest))"

definition removeFromPending :: "string \<Rightarrow> fifo \<Rightarrow> fifo" where
  "removeFromPending taskID q =
     (case scanRemove taskID (pending q) of
        None \<Rightarrow> q
      | Some ps \<Rightarrow> q\<lparr>pending := ps\<rparr>)"

text \<open>
  The inner loop of \<open>updateDepStatusInQueue\<close> on one task: \<open>DepStatus[dep] = status\<close>
  for every listed dependency that is the finished id. The assignment panics when the map is
  nil.
\<close>

fun setDepLoop :: "string \<Rightarrow> StatusValue \<Rightarrow> string list \<Rightarrow> Task \<Rightarrow> fault + Task" where
  "setDepLoop taskID status [] task = Inr task"
| "setDepLoop taskID status (dep # deps) task =
     (if taskID = dep then
        (case DepStatus task of
           None \<Rightarrow> Inl AssignToNilMap
         | Some m \<Rightarrow> setDepLoop taskID status deps (task\<lparr>DepStatus := Some (m(dep \<mapsto> status))\<rparr>))
      else setDepLoop taskID status deps task)"

definition setDepStatus :: "string \<Rightarrow> StatusValue \<Rightarrow> Task \<Rightarrow> fault + Task" where
  "setDepStatus taskID status task = setDepLoop taskID status (Dependencies task) task"

text \<open>The loops of \<open>updateDepStatusInQueue\<close> over pending and over waitingOnDeps.\<close>

fun setDepList :: "string \<Rightarrow> StatusValue \<Rightarrow> Task list \<Rightarrow> fault + Task list" where
  "setDepList taskID status [] = Inr []"
| "setDepList taskID status (task # rest) =
     (case setDepStatus taskID status task of
        Inl f \<Rightarrow> Inl f
      | Inr task' \<Rightarrow>
          (case setDepList taskID status rest of
             Inl f \<Rightarrow> Inl f
           | Inr rest' \<Rightarrow> Inr (task' # rest')))"

text \<open>The loop of \<open>updateDepStatusInQueue\<close> over the running map.\<close>

fun setDepRunning ::
  "string \<Rightarrow> StatusValue \<Rightarrow> (string \<times> nat) list \<Rightarrow> (nat \<Rightarrow> entry) \<Rightarrow> fault + (nat \<Rightarrow> entry)" where
  "setDepRunning taskID status [] h = Inr h"
| "setDepRunning taskID status ((_, a) # rest) h =
     (case setDepStatus taskID status (item (h a)) of
        Inl f \<Rightarrow> Inl f
      | Inr task' \<Rightarrow> setDepRunning taskID status rest (h(a := (h a)\<lparr>item := task'\<rparr>)))"

definition updateDepStatusInQueue :: "string \<Rightarrow> StatusValue \<Rightarrow> fifo \<Rightarrow> fault + fifo" where
  "updateDepStatusInQueue taskID status q =
     (case setDepList taskID status (pending q) of
        Inl f \<Rightarrow> Inl f
      | Inr ps \<Rightarrow>
          (case setDepRunning taskID status (running q) (entries q) of
             Inl f \<Rightarrow> Inl f
           | Inr es \<Rightarrow>
               (case setDepList taskID status (waitingOnDeps q) of
                  Inl f \<Rightarrow> Inl f
                | Inr ws \<Rightarrow> Inr (q\<lparr>pending := ps, entries := es, waitingOnDeps := ws\<rparr>))))"

text \<open>The body of the loop of \<open>finished\<close>, for one id.\<close>

definition finishOne :: "StatusValue \<Rightarrow> error option \<Rightarrow> string \<Rightarrow> fifo \<Rightarrow> fault + fifo" where
  "finishOne exitStatus err taskID q =
     (case map_of (running q) taskID of
        Some a \<Rightarrow>
          if doneClosed (entries q a) then Inl CloseOfClosedChannel
          else updateDepStatusInQueue taskID exitStatus
                 (q\<lparr>entries := (entries q)(a := (entries q a)\<lparr>error := err, doneClosed := True\<rparr>),
                    running := AList.delete taskID (running q)\<rparr>)
      | None \<Rightarrow> updateDepStatusInQueue taskID exitStatus (removeFromPending taskID q))"

fun finishedLoop :: "string list \<Rightarrow> StatusValue \<Rightarrow> error option \<Rightarrow> fifo \<Rightarrow> fault + fifo" where
  "finishedLoop [] exitStatus err q = Inr q"
| "finishedLoop (taskID # ids) exitStatus err q =
     (case finishOne exitStatus err taskID q of
        Inl f \<Rightarrow> Inl f
      | Inr q' \<Rightarrow> finishedLoop ids exitStatus err q')"

definition finished ::
  "string list \<Rightarrow> StatusValue \<Rightarrow> error option \<Rightarrow> fifo \<Rightarrow> fault + fifo \<times> error option" where
  "finished ids exitStatus err q =
     (case finishedLoop ids exitStatus err q of
        Inl f \<Rightarrow> Inl f
      | Inr q' \<Rightarrow> Inr (q', None))"

definition Done :: "string \<Rightarrow> StatusValue \<Rightarrow> fifo \<Rightarrow> fault + fifo \<times> error option" where
  "Done taskID exitStatus q = finished [taskID] exitStatus None q"

definition Error :: "string \<Rightarrow> error option \<Rightarrow> fifo \<Rightarrow> fault + fifo \<times> error option" where
  "Error taskID err q = finished [taskID] StatusFailure err q"

definition ErrorAtOnce :: "string list \<Rightarrow> error option \<Rightarrow> fifo \<Rightarrow> fault + fifo \<times> error option" where
  "ErrorAtOnce ids err q = finished ids StatusFailure err q"

subsection \<open>Evict, Wait, Extend, Pause, Resume, KickAgentWorkers\<close>

fun EvictAtOnce :: "string list \<Rightarrow> fifo \<Rightarrow> fifo \<times> error option" where
  "EvictAtOnce [] q = (q, Some ErrNotFound)"
| "EvictAtOnce (taskID # ids) q =
     (case scanRemove taskID (pending q) of
        Some ps \<Rightarrow> (q\<lparr>pending := ps\<rparr>, None)
      | None \<Rightarrow> EvictAtOnce ids q)"

definition Evict :: "string \<Rightarrow> fifo \<Rightarrow> fifo \<times> error option" where
  "Evict taskID q = EvictAtOnce [taskID] q"

text \<open>
  \<open>Wait\<close> up to its \<open>select\<close>: it returns \<open>nil\<close> at once when the id is not running, and
  blocks on the entry it found otherwise.
\<close>

datatype wait_state = WaitReturned "error option" | WaitBlocked nat

definition Wait_lookup :: "string \<Rightarrow> fifo \<Rightarrow> wait_state" where
  "Wait_lookup taskID q =
     (case map_of (running q) taskID of
        None \<Rightarrow> WaitReturned None
      | Some state \<Rightarrow> WaitBlocked state)"

text \<open>
  The \<open>select\<close> of \<open>Wait\<close> on the entry at address \<open>state\<close>: the case of \<open>c.Done()\<close> has
  an empty body and falls through to \<open>return nil\<close>.
\<close>

definition Wait_select :: "nat \<Rightarrow> select_case \<Rightarrow> fifo \<Rightarrow> error option option" where
  "Wait_select state c q =
     (case c of
        CtxDone e \<Rightarrow> Some None
      | ChanReady \<Rightarrow>
          if doneClosed (entries q state) then Some (error (entries q state)) else None)"

definition Extend :: "int \<Rightarrow> string \<Rightarrow> fifo \<Rightarrow> fifo \<times> error option" where
  "Extend now taskID q =
     (case map_of (running q) taskID of
        Some state \<Rightarrow>
          (q\<lparr>entries := (entries q)(state := (entries q state)\<lparr>deadline := now + extension q\<rparr>)\<rparr>,
           None)
      | None \<Rightarrow> (q, Some ErrNotFound))"

definition Pause :: "fifo \<Rightarrow> fifo" where
  "Pause q = q\<lparr>paused := True\<rparr>"

text \<open>
  \<open>Resume\<close>: \<open>Resume_flag\<close> is its critical section. \<open>Resume\<close> ends with \<open>go q.process()\<close>:
  the dispatcher pass that it starts is part of what \<open>Resume\<close> does, and \<open>Resume now\<close> is the
  flag write followed by that pass, run at time \<open>now\<close> before any other operation takes the
  lock. The definition of \<open>Resume\<close> is after that of \<open>process\<close>.
\<close>

definition Resume_flag :: "fifo \<Rightarrow> fifo" where
  "Resume_flag q = q\<lparr>paused := False\<rparr>"

definition KickAgentWorkers :: "int \<Rightarrow> fifo \<Rightarrow> fifo" where
  "KickAgentWorkers agent q =
     fold (\<lambda>w s. if agentID (workerObjs s w) = agent
                 then s\<lparr>workerObjs := (workerObjs s)
                          (w := (workerObjs s w)\<lparr>stop := Some ''worker was kicked''\<rparr>),
                        workers := removeAll w (workers s)\<rparr>
                 else s)
          (workers q) q"

subsection \<open>The dispatcher pass\<close>

text \<open>
  \<open>resubmitExpiredPipelines\<close>: the loop over the running map, in the order of the list.
  Every \<open>time.Now()\<close> of one pass reads the same instant \<open>now\<close>.
\<close>

fun resubmitLoop :: "int \<Rightarrow> (string \<times> nat) list \<Rightarrow> fifo \<Rightarrow> fault + fifo" where
  "resubmitLoop now [] q = Inr q"
| "resubmitLoop now ((taskID, state) # rest) q =
     (if deadline (entries q state) < now then
        (if doneClosed (entries q state) then Inl CloseOfClosedChannel
         else resubmitLoop now rest
                (q\<lparr>pending := item (entries q state) # pending q,
                   running := AList.delete taskID (running q),
                   entries := (entries q)(state := (entries q state)\<lparr>doneClosed := True\<rparr>)\<rparr>))
      else resubmitLoop now rest q)"

definition resubmitExpiredPipelines :: "int \<Rightarrow> fifo \<Rightarrow> fault + fifo" where
  "resubmitExpiredPipelines now q = resubmitLoop now (running q) q"

definition depsInQueue :: "fifo \<Rightarrow> Task \<Rightarrow> bool" where
  "depsInQueue q task =
     (list_ex (\<lambda>possibleDep. list_ex (\<lambda>dep. ID possibleDep = dep) (Dependencies task))
              (pending q)
      \<or> list_ex (\<lambda>(possibleDepID, _). list_ex (\<lambda>dep. possibleDepID = dep) (Dependencies task))
                (running q))"

definition filterWaiting :: "fifo \<Rightarrow> fifo" where
  "filterWaiting q =
     (let q1 = fold (\<lambda>task s. s\<lparr>pending := pending s @ [task]\<rparr>) (waitingOnDeps q) q;
          q2 = q1\<lparr>waitingOnDeps := []\<rparr>
      in q2\<lparr>waitingOnDeps := filter (depsInQueue q2) (pending q2),
            pending := filter (\<lambda>task. \<not> depsInQueue q2 task) (pending q2)\<rparr>)"

text \<open>
  \<open>assignToWorker\<close>: the first pending task, by position, that some worker's filter
  accepts, with the first such worker.
\<close>

fun findWorker :: "(nat \<Rightarrow> worker) \<Rightarrow> Task \<Rightarrow> nat list \<Rightarrow> nat option" where
  "findWorker objs task [] = None"
| "findWorker objs task (w # ws) =
     (if filterFn (objs w) task then Some w else findWorker objs task ws)"

fun assignFrom ::
  "(nat \<Rightarrow> worker) \<Rightarrow> nat list \<Rightarrow> nat \<Rightarrow> Task list \<Rightarrow> (nat \<times> Task \<times> nat) option" where
  "assignFrom objs ws i [] = None"
| "assignFrom objs ws i (task # rest) =
     (case findWorker objs task ws of
        Some w \<Rightarrow> Some (i, task, w)
      | None \<Rightarrow> assignFrom objs ws (Suc i) rest)"

definition assignToWorker :: "fifo \<Rightarrow> (nat \<times> Task \<times> nat) option" where
  "assignToWorker q = assignFrom (workerObjs q) (workers q) 0 (pending q)"

text \<open>The body of the loop of \<open>process\<close>.\<close>

definition assign :: "int \<Rightarrow> nat \<Rightarrow> Task \<Rightarrow> nat \<Rightarrow> fifo \<Rightarrow> fault + fifo" where
  "assign now i t w q =
     (let task = t\<lparr>AgentID := agentID (workerObjs q w)\<rparr>;
          state = entryNext q
      in if channel (workerObjs q w) \<noteq> None then Inl SendOnFullChannel
         else Inr (q\<lparr>workers := removeAll w (workers q),
                     pending := take i (pending q) @ drop (Suc i) (pending q),
                     running := AList.update (ID task) state (running q),
                     entries := (entries q)
                       (state := \<lparr>item = task, doneClosed = False, error = None,
                                  deadline = now + extension q\<rparr>),
                     entryNext := Suc state,
                     workerObjs := (workerObjs q)(w := (workerObjs q w)\<lparr>channel := Some task\<rparr>)\<rparr>))"

function processLoop :: "int \<Rightarrow> fifo \<Rightarrow> fault + fifo" where
  "processLoop now q =
     (case assignToWorker q of
        None \<Rightarrow> Inr q
      | Some (i, t, w) \<Rightarrow>
          (case assign now i t w q of
             Inl f \<Rightarrow> Inl f
           | Inr q' \<Rightarrow> processLoop now q'))"
  by pat_completeness auto
termination
proof (relation "measure (\<lambda>(now, q). length (pending q))")
  show "wf (measure (\<lambda>(now, q). length (pending q)))" by simp
next
  fix now :: int and q q' :: fifo and x2 i y t w
  assume a: "assignToWorker q = Some x2" "(i, y) = x2" "(t, w) = y"
    and b: "assign now i t w q = Inr q'"
  have bound: "assignFrom objs ws k ps = Some (j, t, w) \<Longrightarrow> j < k + length ps"
    for objs ws k ps j
    by (induction ps arbitrary: k) (fastforce split: option.splits)+
  from a have "i < length (pending q)"
    using bound [of "workerObjs q" "workers q" 0 "pending q" i]
    by (simp add: assignToWorker_def)
  moreover from b have "pending q' = take i (pending q) @ drop (Suc i) (pending q)"
    by (auto simp: assign_def Let_def split: if_splits)
  ultimately show "((now, q'), (now, q)) \<in> measure (\<lambda>(now, q). length (pending q))"
    by simp
qed

declare processLoop.simps [simp del]

definition process :: "int \<Rightarrow> fifo \<Rightarrow> fault + fifo" where
  "process now q =
     (if paused q then Inr q
      else (case resubmitExpiredPipelines now q of
              Inl f \<Rightarrow> Inl f
            | Inr q1 \<Rightarrow> processLoop now (filterWaiting q1)))"

definition Resume :: "int \<Rightarrow> fifo \<Rightarrow> fault + fifo" where
  "Resume now q = process now (Resume_flag q)"

subsection \<open>Histories\<close>

text \<open>
  The operations as steps on the state. \<open>OpPoll\<close> is \<open>Poll\<close> up to its \<open>select\<close> and
  \<open>OpPollSelect\<close> the case that fires later; \<open>OpProcess\<close> is one dispatcher pass, and
  \<open>OpResume\<close> is the critical section of \<open>Resume\<close>: in a history the pass that \<open>Resume\<close>
  starts is an \<open>OpProcess\<close> of its own, which may come after other operations.
  \<open>OpRange\<close> is no operation of the queue: it puts the two maps in another iteration order,
  which Go may do before any \<open>range\<close>. Within one pass a single order of the workers gives
  every outcome of the matching loop: list the workers in the order in which they are chosen.
\<close>

datatype op =
    OpPush Task
  | OpPushAtOnce "Task list"
  | OpPoll int "Task \<Rightarrow> bool"
  | OpPollSelect nat select_case
  | OpDone string StatusValue
  | OpError string "error option"
  | OpErrorAtOnce "string list" "error option"
  | OpEvict string
  | OpEvictAtOnce "string list"
  | OpExtend int string
  | OpPause
  | OpResume
  | OpKickAgentWorkers int
  | OpProcess int
  | OpRange "(string \<times> nat) list" "nat list"

definition dropResult :: "fault + fifo \<times> error option \<Rightarrow> fault + fifo" where
  "dropResult r = (case r of Inl f \<Rightarrow> Inl f | Inr (q, _) \<Rightarrow> Inr q)"

fun exec :: "op \<Rightarrow> fifo \<Rightarrow> fault + fifo" where
  "exec (OpPush task) q = Inr (fst (Push task q))"
| "exec (OpPushAtOnce tasks) q = Inr (fst (PushAtOnce tasks q))"
| "exec (OpPoll agent f) q = Inr (snd (Poll_register agent f q))"
| "exec (OpPollSelect w c) q =
     (case Poll_select w c q of None \<Rightarrow> Inr q | Some (q', _) \<Rightarrow> Inr q')"
| "exec (OpDone taskID exitStatus) q = dropResult (Done taskID exitStatus q)"
| "exec (OpError taskID err) q = dropResult (Error taskID err q)"
| "exec (OpErrorAtOnce ids err) q = dropResult (ErrorAtOnce ids err q)"
| "exec (OpEvict taskID) q = Inr (fst (Evict taskID q))"
| "exec (OpEvictAtOnce ids) q = Inr (fst (EvictAtOnce ids q))"
| "exec (OpExtend now taskID) q = Inr (fst (Extend now taskID q))"
| "exec OpPause q = Inr (Pause q)"
| "exec OpResume q = Inr (Resume_flag q)"
| "exec (OpKickAgentWorkers agent) q = Inr (KickAgentWorkers agent q)"
| "exec (OpProcess now) q = process now q"
| "exec (OpRange r ws) q =
     Inr (if mset r = mset (running q) \<and> mset ws = mset (workers q)
          then q\<lparr>running := r, workers := ws\<rparr> else q)"

fun run :: "op list \<Rightarrow> fifo \<Rightarrow> fault + fifo" where
  "run [] q = Inr q"
| "run (x # xs) q = (case exec x q of Inl f \<Rightarrow> Inl f | Inr q' \<Rightarrow> run xs q')"

subsection \<open>Properties of a state\<close>

definition queueIDs :: "fifo \<Rightarrow> string list" where
  "queueIDs q = map ID (pending q) @ map ID (waitingOnDeps q) @ map fst (running q)"

text \<open>No task id is in more than one of pending, waitingOnDeps and running.\<close>

definition idsDisjoint :: "fifo \<Rightarrow> bool" where
  "idsDisjoint q =
     (set (map ID (pending q)) \<inter> set (map ID (waitingOnDeps q)) = {}
      \<and> set (map ID (pending q)) \<inter> set (map fst (running q)) = {}
      \<and> set (map ID (waitingOnDeps q)) \<inter> set (map fst (running q)) = {})"

text \<open>A push is fresh when it brings no id that the queue holds, and no id twice.\<close>

fun pushesFresh :: "op \<Rightarrow> fifo \<Rightarrow> bool" where
  "pushesFresh (OpPush task) q = (ID task \<notin> set (queueIDs q))"
| "pushesFresh (OpPushAtOnce tasks) q =
     (distinct (map ID tasks) \<and> list_all (\<lambda>task. ID task \<notin> set (queueIDs q)) tasks)"
| "pushesFresh _ q = True"

fun freshRun :: "op list \<Rightarrow> fifo \<Rightarrow> bool" where
  "freshRun [] q = True"
| "freshRun (x # xs) q =
     (pushesFresh x q \<and> (case exec x q of Inl f \<Rightarrow> True | Inr q' \<Rightarrow> freshRun xs q'))"

text \<open>
  The running map is well formed: its keys are distinct, every key has an entry of its own,
  allocated, for the task of that id, with \<open>done\<close> open and no error yet.
\<close>

definition runningOK :: "fifo \<Rightarrow> bool" where
  "runningOK q =
     (distinct (map fst (running q)) \<and> distinct (map snd (running q))
      \<and> list_all (\<lambda>(taskID, a). a < entryNext q \<and> \<not> doneClosed (entries q a)
                      \<and> error (entries q a) = None \<and> ID (item (entries q a)) = taskID)
                   (running q))"

text \<open>
  The workers set is well formed: every worker in it is allocated and its delivery channel is
  empty.
\<close>

definition workersOK :: "fifo \<Rightarrow> bool" where
  "workersOK q =
     list_all (\<lambda>w. w < workerNext q \<and> channel (workerObjs q w) = None) (workers q)"

text \<open>
  What \<open>updateDepStatusInQueue\<close> writes when it does not panic: \<open>withDepStatus\<close> on one
  task, \<open>depStatusWritten\<close> on the queue.
\<close>

definition withDepStatus :: "string \<Rightarrow> StatusValue \<Rightarrow> Task \<Rightarrow> Task" where
  "withDepStatus taskID status task =
     (if taskID \<in> set (Dependencies task)
      then task\<lparr>DepStatus := map_option (\<lambda>m. m(taskID \<mapsto> status)) (DepStatus task)\<rparr>
      else task)"

definition depStatusWritten :: "string \<Rightarrow> StatusValue \<Rightarrow> fifo \<Rightarrow> fifo" where
  "depStatusWritten taskID status q =
     q\<lparr>pending := map (withDepStatus taskID status) (pending q),
       entries := (\<lambda>a. if a \<in> snd ` set (running q)
                        then (entries q a)\<lparr>item := withDepStatus taskID status (item (entries q a))\<rparr>
                        else entries q a),
       waitingOnDeps := map (withDepStatus taskID status) (waitingOnDeps q)\<rparr>"

text \<open>
  \<open>depMapsFor k q\<close>: every task in pending, waitingOnDeps and running that lists \<open>k\<close> as a
  dependency has an allocated \<open>DepStatus\<close> map. \<open>tasksAllocated q\<close>: every task in the queue
  has one. \<open>pushesAllocated\<close>: the operation pushes only tasks that have one.
\<close>

definition depMapFor :: "string \<Rightarrow> Task \<Rightarrow> bool" where
  "depMapFor taskID task = (taskID \<in> set (Dependencies task) \<longrightarrow> DepStatus task \<noteq> None)"

definition allTasks :: "(Task \<Rightarrow> bool) \<Rightarrow> fifo \<Rightarrow> bool" where
  "allTasks P q =
     (list_all P (pending q) \<and> list_all P (waitingOnDeps q)
      \<and> list_all (\<lambda>(_, a). P (item (entries q a))) (running q))"

definition depMapsFor :: "string \<Rightarrow> fifo \<Rightarrow> bool" where
  "depMapsFor taskID q = allTasks (depMapFor taskID) q"

definition tasksAllocated :: "fifo \<Rightarrow> bool" where
  "tasksAllocated q = allTasks (\<lambda>task. DepStatus task \<noteq> None) q"

fun pushesAllocated :: "op \<Rightarrow> bool" where
  "pushesAllocated (OpPush task) = (DepStatus task \<noteq> None)"
| "pushesAllocated (OpPushAtOnce tasks) = list_all (\<lambda>task. DepStatus task \<noteq> None) tasks"
| "pushesAllocated _ = True"

text \<open>
  The dep-gating predicate in the spec's words: some dependency is the id of a pending task
  other than the task itself, or a key of the running map.
\<close>

definition depsInQueue_spec :: "fifo \<Rightarrow> Task \<Rightarrow> bool" where
  "depsInQueue_spec q task =
     list_ex (\<lambda>dep. list_ex (\<lambda>other. other \<noteq> task \<and> ID other = dep) (pending q)
                   \<or> list_ex (\<lambda>(taskID, _). taskID = dep) (running q))
             (Dependencies task)"

text \<open>
  A lease has expired at time \<open>now\<close> when \<open>time.Now().After(state.deadline)\<close> holds.
\<close>

definition expired :: "int \<Rightarrow> fifo \<Rightarrow> string \<times> nat \<Rightarrow> bool" where
  "expired now q = (\<lambda>(taskID, state). deadline (entries q state) < now)"

subsection \<open>Example tasks and states\<close>

definition taskA :: Task where
  "taskA = \<lparr>ID = ''a'', AgentID = 0, Dependencies = [], DepStatus = Some Map.empty\<rparr>"

definition taskB :: Task where
  "taskB = \<lparr>ID = ''b'', AgentID = 0, Dependencies = [''a''], DepStatus = Some Map.empty\<rparr>"

definition taskS :: Task where
  "taskS = \<lparr>ID = ''s'', AgentID = 0, Dependencies = [''s''], DepStatus = Some Map.empty\<rparr>"

text \<open>\<open>taskN\<close> depends on \<open>a\<close> and has the nil map that Go gives a task literal.\<close>

definition taskN :: Task where
  "taskN = \<lparr>ID = ''n'', AgentID = 0, Dependencies = [''a''], DepStatus = None\<rparr>"

text \<open>
  \<open>leased\<close>: after \<open>Push(a)\<close>, \<open>Push(b)\<close>, a \<open>Poll\<close> of agent 7 that accepts every task
  and a dispatcher pass at time 0, task \<open>a\<close> is running with a lease until
  \<open>600000000000\<close> and \<open>b\<close>, which depends on \<open>a\<close>, waits.
\<close>

definition leased :: fifo where
  "leased = projr (run [OpPush taskA, OpPush taskB, OpPoll 7 (\<lambda>_. True), OpProcess 0] New)"

text \<open>\<open>queued\<close>: after \<open>Push(a)\<close> and \<open>Push(b)\<close>, before any dispatcher pass.\<close>

definition queued :: fifo where
  "queued = projr (run [OpPush taskA, OpPush taskB] New)"

text \<open>
  \<open>leasedNil\<close>: as \<open>leased\<close>, with \<open>taskN\<close> in the place of \<open>b\<close>: \<open>a\<close> is running and
  \<open>n\<close> waits for it.
\<close>

definition leasedNil :: fifo where
  "leasedNil = projr (run [OpPush taskA, OpPush taskN, OpPoll 7 (\<lambda>_. True), OpProcess 0] New)"

text \<open>
  \<open>pausedPolled\<close>: the queue is paused, then \<open>Push(a)\<close> and a \<open>Poll\<close> of agent 7 that accepts
  every task, each with the dispatcher pass it starts: \<open>a\<close> is pending and the worker waits.
\<close>

definition pausedPolled :: fifo where
  "pausedPolled =
     projr (run [OpPause, OpPush taskA, OpProcess 0, OpPoll 7 (\<lambda>_. True), OpProcess 0] New)"

section \<open>Lemmas\<close>

subsection \<open>Dependency status and the finish loop\<close>

lemma setDepLoop_eq:
  "setDepLoop k st ds t =
     (if k \<in> set ds
      then (case DepStatus t of
              None \<Rightarrow> Inl AssignToNilMap
            | Some m \<Rightarrow> Inr (t\<lparr>DepStatus := Some (m(k \<mapsto> st))\<rparr>))
      else Inr t)"
  by (induction ds arbitrary: t) (auto split: option.splits)

lemma setDepStatus_eq:
  "setDepStatus k st t = (if depMapFor k t then Inr (withDepStatus k st t) else Inl AssignToNilMap)"
  by (auto simp: setDepStatus_def setDepLoop_eq depMapFor_def withDepStatus_def split: option.splits)

lemma ID_withDepStatus [simp]: "ID (withDepStatus k st t) = ID t"
  by (simp add: withDepStatus_def)

lemma Dependencies_withDepStatus [simp]: "Dependencies (withDepStatus k st t) = Dependencies t"
  by (simp add: withDepStatus_def)

lemma DepStatus_withDepStatus_None [simp]:
  "DepStatus (withDepStatus k st t) = None \<longleftrightarrow> DepStatus t = None"
  by (simp add: withDepStatus_def)

lemma depMapFor_withDepStatus [simp]: "depMapFor j (withDepStatus k st t) = depMapFor j t"
  by (simp add: depMapFor_def)

lemma withDepStatus_idem [simp]: "withDepStatus k st (withDepStatus k st t) = withDepStatus k st t"
  by (simp add: withDepStatus_def option.map_comp comp_def)

lemma map_ID_withDepStatus [simp]: "map ID (map (withDepStatus k st) ps) = map ID ps"
  by simp

lemma fold_push: "fold (\<lambda>task s. s\<lparr>pending := pending s @ [task]\<rparr>) ts q = q\<lparr>pending := pending q @ ts\<rparr>"
  by (induction ts arbitrary: q) simp_all

lemma setDepList_eq:
  "setDepList k st ts =
     (if list_all (depMapFor k) ts then Inr (map (withDepStatus k st) ts) else Inl AssignToNilMap)"
  by (induction ts) (auto simp: setDepStatus_eq)

lemma setDepRunning_eq:
  "setDepRunning k st rs h =
     (if list_all (\<lambda>(_, a). depMapFor k (item (h a))) rs
      then Inr (\<lambda>a. if a \<in> snd ` set rs then (h a)\<lparr>item := withDepStatus k st (item (h a))\<rparr> else h a)
      else Inl AssignToNilMap)"
proof (induction rs arbitrary: h)
  case Nil
  then show ?case by simp
next
  case (Cons p rs)
  obtain j a where p: "p = (j, a)" by (cases p)
  let ?h = "h(a := (h a)\<lparr>item := withDepStatus k st (item (h a))\<rparr>)"
  have same: "list_all (\<lambda>(_, b). depMapFor k (item (?h b))) rs
            = list_all (\<lambda>(_, b). depMapFor k (item (h b))) rs"
    by (rule arg_cong [where f = "\<lambda>P. list_all P rs"]) (auto simp: fun_eq_iff)
  have form: "(\<lambda>b. if b \<in> snd ` set rs then (?h b)\<lparr>item := withDepStatus k st (item (?h b))\<rparr> else ?h b)
            = (\<lambda>b. if b \<in> snd ` set (p # rs) then (h b)\<lparr>item := withDepStatus k st (item (h b))\<rparr> else h b)"
    by (auto simp: fun_eq_iff p)
  show ?case
  proof (cases "depMapFor k (item (h a))")
    case False
    then show ?thesis by (simp add: p setDepStatus_eq)
  next
    case True
    then have "setDepRunning k st (p # rs) h = setDepRunning k st rs ?h"
      by (simp add: p setDepStatus_eq)
    then show ?thesis
      unfolding Cons.IH [of ?h] same form using True by (simp add: p)
  qed
qed

lemma updateDepStatusInQueue_eq:
  "updateDepStatusInQueue k st q =
     (if depMapsFor k q then Inr (depStatusWritten k st q) else Inl AssignToNilMap)"
  by (auto simp: updateDepStatusInQueue_def depMapsFor_def allTasks_def depStatusWritten_def
      setDepList_eq setDepRunning_eq)

lemma depStatusWritten_simps [simp]:
  "running (depStatusWritten k st q) = running q"
  "workers (depStatusWritten k st q) = workers q"
  "workerObjs (depStatusWritten k st q) = workerObjs q"
  "workerNext (depStatusWritten k st q) = workerNext q"
  "entryNext (depStatusWritten k st q) = entryNext q"
  "paused (depStatusWritten k st q) = paused q"
  "pending (depStatusWritten k st q) = map (withDepStatus k st) (pending q)"
  "waitingOnDeps (depStatusWritten k st q) = map (withDepStatus k st) (waitingOnDeps q)"
  by (simp_all add: depStatusWritten_def)

lemma entries_depStatusWritten:
  "entries (depStatusWritten k st q) a =
     (if a \<in> snd ` set (running q)
      then (entries q a)\<lparr>item := withDepStatus k st (item (entries q a))\<rparr> else entries q a)"
  by (simp add: depStatusWritten_def)

lemma runningOK_iff:
  "runningOK q \<longleftrightarrow>
     distinct (map fst (running q)) \<and> distinct (map snd (running q))
     \<and> (\<forall>(k, a)\<in>set (running q). a < entryNext q \<and> \<not> doneClosed (entries q a)
            \<and> error (entries q a) = None \<and> ID (item (entries q a)) = k)"
  by (simp add: runningOK_def list_all_iff)

lemma allTasks_iff:
  "allTasks P q \<longleftrightarrow>
     (\<forall>t\<in>set (pending q). P t) \<and> (\<forall>t\<in>set (waitingOnDeps q). P t)
     \<and> (\<forall>(k, a)\<in>set (running q). P (item (entries q a)))"
  by (simp add: allTasks_def list_all_iff)

lemma runningOK_depStatusWritten:
  "runningOK q \<Longrightarrow> runningOK (depStatusWritten k st q)"
  by (auto simp: runningOK_iff entries_depStatusWritten)

lemma allTasks_depStatusWritten:
  assumes "\<And>t. P (withDepStatus k st t) = P t"
  shows "allTasks P (depStatusWritten k st q) = allTasks P q"
  using assms by (auto simp: allTasks_iff entries_depStatusWritten image_iff)

lemma distinct_snd_neq:
  "distinct (map snd al) \<Longrightarrow> (k, a) \<in> set al \<Longrightarrow> (k', a') \<in> set al \<Longrightarrow> k' \<noteq> k \<Longrightarrow> a' \<noteq> a"
  by (metis distinct_map inj_onD prod.inject snd_conv old.prod.exhaust)

lemma finishOne_running:
  "runningOK q \<Longrightarrow> map_of (running q) k = Some a \<Longrightarrow>
   finishOne st err k q =
     updateDepStatusInQueue k st
       (q\<lparr>entries := (entries q)(a := (entries q a)\<lparr>error := err, doneClosed := True\<rparr>),
          running := AList.delete k (running q)\<rparr>)"
  by (auto simp: finishOne_def runningOK_iff dest!: map_of_SomeD)

lemma finishOne_not_running:
  "map_of (running q) k = None \<Longrightarrow>
   finishOne st err k q = updateDepStatusInQueue k st (removeFromPending k q)"
  by (simp add: finishOne_def)

text \<open>The state of \<open>finishOne\<close> between the removal and the status update.\<close>

lemma finishOne_cases:
  assumes "finishOne st err k q = Inr q'"
  obtains a where "map_of (running q) k = Some a" "\<not> doneClosed (entries q a)"
      "depMapsFor k (q\<lparr>entries := (entries q)(a := (entries q a)\<lparr>error := err, doneClosed := True\<rparr>),
                       running := AList.delete k (running q)\<rparr>)"
      "q' = depStatusWritten k st
              (q\<lparr>entries := (entries q)(a := (entries q a)\<lparr>error := err, doneClosed := True\<rparr>),
                 running := AList.delete k (running q)\<rparr>)"
  | "map_of (running q) k = None" "depMapsFor k (removeFromPending k q)"
      "q' = depStatusWritten k st (removeFromPending k q)"
  using assms
  by (auto simp: finishOne_def updateDepStatusInQueue_eq split: option.splits if_splits)

lemma running_removeFromPending [simp]: "running (removeFromPending k q) = running q"
  "entries (removeFromPending k q) = entries q" "entryNext (removeFromPending k q) = entryNext q"
  "waitingOnDeps (removeFromPending k q) = waitingOnDeps q"
  by (simp_all add: removeFromPending_def split: option.splits)

lemma scanRemove_subset: "scanRemove k ps = Some ps' \<Longrightarrow> set ps' \<subseteq> set ps"
  by (induction ps arbitrary: ps') (auto split: if_splits)

lemma set_pending_removeFromPending: "set (pending (removeFromPending k q)) \<subseteq> set (pending q)"
  by (auto simp: removeFromPending_def split: option.splits dest: scanRemove_subset)

lemma allTasks_removeFromPending: "allTasks P q \<Longrightarrow> allTasks P (removeFromPending k q)"
  using set_pending_removeFromPending [of k q] by (auto simp: allTasks_iff)

lemma allTasks_close:
  "allTasks P q \<Longrightarrow>
   allTasks P (q\<lparr>entries := (entries q)(a := (entries q a)\<lparr>error := err, doneClosed := True\<rparr>),
                 running := AList.delete k (running q)\<rparr>)"
  by (auto simp: allTasks_iff AList.delete_eq)

lemma runningOK_close:
  assumes "runningOK q" "map_of (running q) k = Some a"
  shows "runningOK (q\<lparr>entries := (entries q)(a := e), running := AList.delete k (running q)\<rparr>)"
proof -
  from assms have in_r: "(k, a) \<in> set (running q)" by (auto dest: map_of_SomeD)
  have "a' \<noteq> a" if "(k', a') \<in> set (AList.delete k (running q))" for k' a'
    using that assms(1) in_r distinct_snd_neq [of "running q" k a k' a']
    by (auto simp: runningOK_iff AList.delete_eq)
  moreover have "distinct (map snd (AList.delete k (running q)))"
    using assms(1) by (simp add: runningOK_iff AList.delete_eq distinct_map_filter)
  ultimately show ?thesis
    using assms(1) by (auto simp: runningOK_iff distinct_delete) (auto simp: AList.delete_eq)
qed

lemma runningOK_finishOne:
  assumes "runningOK q" "finishOne st err k q = Inr q'"
  shows "runningOK q'"
  using assms(2)
proof (cases rule: finishOne_cases)
  case (1 a)
  with runningOK_close [OF assms(1) 1(1)] show ?thesis by (simp add: runningOK_depStatusWritten)
next
  case 2
  have "runningOK (removeFromPending k q)"
    using assms(1) by (simp add: runningOK_iff)
  with 2 show ?thesis by (simp add: runningOK_depStatusWritten)
qed

lemma allTasks_finishOne:
  assumes "\<And>t. P (withDepStatus k st t) = P t" "allTasks P q" "finishOne st err k q = Inr q'"
  shows "allTasks P q'"
  using assms(3)
proof (cases rule: finishOne_cases)
  case (1 a)
  with allTasks_close [OF assms(2), where a = a and err = err and k = k] show ?thesis
    by (simp add: allTasks_depStatusWritten [of P k st, OF assms(1)])
next
  case 2
  with allTasks_removeFromPending [OF assms(2), of k] show ?thesis
    by (simp add: allTasks_depStatusWritten [of P k st, OF assms(1)])
qed

lemma depMapsFor_finishOne:
  "depMapsFor j q \<Longrightarrow> finishOne st err k q = Inr q' \<Longrightarrow> depMapsFor j q'"
  unfolding depMapsFor_def by (rule allTasks_finishOne) simp_all

lemma tasksAllocated_finishOne:
  "tasksAllocated q \<Longrightarrow> finishOne st err k q = Inr q' \<Longrightarrow> tasksAllocated q'"
  unfolding tasksAllocated_def by (rule allTasks_finishOne) simp_all

lemma tasksAllocated_depMapsFor: "tasksAllocated q \<Longrightarrow> depMapsFor k q"
  by (auto simp: tasksAllocated_def depMapsFor_def allTasks_iff depMapFor_def)

lemma finishOne_total:
  assumes "runningOK q" "depMapsFor k q"
  shows "\<exists>q'. finishOne st err k q = Inr q'"
proof (cases "map_of (running q) k")
  case None
  have "depMapsFor k (removeFromPending k q)"
    using assms(2) unfolding depMapsFor_def by (rule allTasks_removeFromPending)
  with None show ?thesis by (simp add: finishOne_not_running updateDepStatusInQueue_eq)
next
  case (Some a)
  have "depMapsFor k (q\<lparr>entries := (entries q)(a := (entries q a)\<lparr>error := err, doneClosed := True\<rparr>),
                        running := AList.delete k (running q)\<rparr>)"
    using assms(2) unfolding depMapsFor_def by (rule allTasks_close)
  with Some assms(1) show ?thesis by (simp add: finishOne_running updateDepStatusInQueue_eq)
qed

lemma runningOK_finishedLoop:
  "runningOK q \<Longrightarrow> finishedLoop ids st err q = Inr q' \<Longrightarrow> runningOK q'"
  by (induction ids arbitrary: q) (auto split: sum.splits dest: runningOK_finishOne)

lemma tasksAllocated_finishedLoop:
  "tasksAllocated q \<Longrightarrow> finishedLoop ids st err q = Inr q' \<Longrightarrow> tasksAllocated q'"
  by (induction ids arbitrary: q) (auto split: sum.splits dest: tasksAllocated_finishOne)

lemma finishedLoop_total:
  "runningOK q \<Longrightarrow> \<forall>k\<in>set ids. depMapsFor k q \<Longrightarrow> \<exists>q'. finishedLoop ids st err q = Inr q'"
proof (induction ids arbitrary: q)
  case Nil
  then show ?case by simp
next
  case (Cons k ids)
  from finishOne_total [of q k st err] Cons.prems obtain q1 where
    q1: "finishOne st err k q = Inr q1" by auto
  have "runningOK q1" using Cons.prems(1) q1 by (rule runningOK_finishOne)
  moreover have "\<forall>j\<in>set ids. depMapsFor j q1"
    using Cons.prems(2) q1 by (auto dest: depMapsFor_finishOne)
  ultimately show ?case using Cons.IH [of q1] q1 by simp
qed

lemma scanRemove_None: "scanRemove k ps = None \<longleftrightarrow> k \<notin> ID ` set ps"
  by (induction ps) auto

lemma scanRemove_split:
  "ps = xs @ t # ys \<Longrightarrow> ID t = k \<Longrightarrow> k \<notin> ID ` set xs \<Longrightarrow> scanRemove k ps = Some (xs @ ys)"
  by (induction xs arbitrary: ps) auto

subsection \<open>The lease-expiry sweep\<close>

lemma resubmitLoop_eq:
  assumes "distinct (map snd rs)" "\<forall>(k, a)\<in>set rs. \<not> doneClosed (entries q a)"
  shows "resubmitLoop now rs q =
     Inr (q\<lparr>pending := rev (map (\<lambda>(k, a). item (entries q a)) (filter (expired now q) rs)) @ pending q,
            running := filter (\<lambda>(k, a). k \<notin> fst ` set (filter (expired now q) rs)) (running q),
            entries := (\<lambda>a. if a \<in> snd ` set (filter (expired now q) rs)
                             then (entries q a)\<lparr>doneClosed := True\<rparr> else entries q a)\<rparr>)"
  using assms
proof (induction rs arbitrary: q)
  case Nil
  then show ?case by simp
next
  case (Cons p rs)
  obtain k a where p: "p = (k, a)" by (cases p)
  from Cons.prems p have d: "distinct (map snd rs)" and na: "a \<notin> snd ` set rs"
    and open_a: "\<not> doneClosed (entries q a)"
    and open_rs: "\<forall>(k, a)\<in>set rs. \<not> doneClosed (entries q a)"
    by auto
  show ?case
  proof (cases "deadline (entries q a) < now")
    case False
    then have "filter (expired now q) (p # rs) = filter (expired now q) rs"
      by (simp add: p expired_def)
    moreover have "resubmitLoop now (p # rs) q = resubmitLoop now rs q"
      using False by (simp add: p)
    ultimately show ?thesis using Cons.IH [OF d open_rs] by simp
  next
    case True
    define q1 where "q1 = q\<lparr>pending := item (entries q a) # pending q,
        running := AList.delete k (running q),
        entries := (entries q)(a := (entries q a)\<lparr>doneClosed := True\<rparr>)\<rparr>"
    have same: "entries q1 a' = entries q a'" if "(k', a') \<in> set rs" for k' a'
      using that na by (auto simp: q1_def image_iff)
    have E: "filter (expired now q1) rs = filter (expired now q) rs"
      by (rule filter_cong) (auto simp: expired_def same)
    have M: "map (\<lambda>(k, a). item (entries q1 a)) (filter (expired now q) rs)
           = map (\<lambda>(k, a). item (entries q a)) (filter (expired now q) rs)"
      by (rule map_cong) (auto simp: same)
    have open1: "\<forall>(k, a)\<in>set rs. \<not> doneClosed (entries q1 a)"
      using open_rs same by auto
    have step: "resubmitLoop now (p # rs) q = resubmitLoop now rs q1"
      using True open_a by (simp add: p q1_def)
    have F: "filter (expired now q) (p # rs) = p # filter (expired now q) rs"
      using True by (simp add: p expired_def)
    have R: "filter (\<lambda>(k', a). k' \<notin> fst ` set (filter (expired now q) rs)) (AList.delete k (running q))
           = filter (\<lambda>(k', a). k' \<notin> fst ` set (p # filter (expired now q) rs)) (running q)"
      by (auto simp: AList.delete_eq p intro!: filter_cong)
    have H: "(\<lambda>a'. if a' \<in> snd ` set (filter (expired now q) rs)
                   then (entries q1 a')\<lparr>doneClosed := True\<rparr> else entries q1 a')
           = (\<lambda>a'. if a' \<in> snd ` set (p # filter (expired now q) rs)
                   then (entries q a')\<lparr>doneClosed := True\<rparr> else entries q a')"
      using na by (auto simp: fun_eq_iff p q1_def image_iff)
    show ?thesis
      unfolding step Cons.IH [OF d open1] E M F
      using R H by (simp add: q1_def p)
  qed
qed

lemma filter_keys_expired:
  "distinct (map fst rs) \<Longrightarrow>
   filter (\<lambda>(k, a). k \<notin> fst ` set (filter P rs)) rs = filter (\<lambda>e. \<not> P e) rs"
  by (rule filter_cong) (auto simp: image_iff dest: eq_key_imp_eq_value)

lemma resubmitExpiredPipelines_eq:
  assumes "runningOK q"
  shows "resubmitExpiredPipelines now q =
     Inr (q\<lparr>pending := rev (map (\<lambda>(k, a). item (entries q a)) (filter (expired now q) (running q))) @ pending q,
            running := filter (\<lambda>e. \<not> expired now q e) (running q),
            entries := (\<lambda>a. if a \<in> snd ` set (filter (expired now q) (running q))
                             then (entries q a)\<lparr>doneClosed := True\<rparr> else entries q a)\<rparr>)"
proof -
  from assms have d: "distinct (map snd (running q))"
    and o: "\<forall>(k, a)\<in>set (running q). \<not> doneClosed (entries q a)"
    and dk: "distinct (map fst (running q))"
    by (auto simp: runningOK_iff)
  show ?thesis
    unfolding resubmitExpiredPipelines_def resubmitLoop_eq [OF d o] filter_keys_expired [OF dk] ..
qed

lemma runningOK_resubmit:
  assumes "runningOK q"
  shows "\<exists>q'. resubmitExpiredPipelines now q = Inr q' \<and> runningOK q'"
proof -
  have "a \<notin> snd ` set (filter (expired now q) (running q))"
    if "(k, a) \<in> set (running q)" "\<not> expired now q (k, a)" for k a
    using that assms
    by (auto simp: runningOK_iff image_iff expired_def dest: distinct_snd_neq)
  then show ?thesis
    using assms
    by (auto simp: resubmitExpiredPipelines_eq runningOK_iff distinct_map_filter)
qed

subsection \<open>The dispatcher pass keeps the running map well formed\<close>

lemma filterWaiting_eq:
  "filterWaiting q =
     q\<lparr>pending := filter (\<lambda>task. \<not> depsInQueue (q\<lparr>pending := pending q @ waitingOnDeps q\<rparr>) task)
                    (pending q @ waitingOnDeps q),
       waitingOnDeps := filter (depsInQueue (q\<lparr>pending := pending q @ waitingOnDeps q\<rparr>))
                    (pending q @ waitingOnDeps q)\<rparr>"
proof -
  have "depsInQueue (q\<lparr>pending := ps, waitingOnDeps := ws\<rparr>) = depsInQueue (q\<lparr>pending := ps\<rparr>)" for ps ws
    by (simp add: depsInQueue_def fun_eq_iff)
  then show ?thesis
    by (simp add: filterWaiting_def fold_push Let_def)
qed

lemma runningOK_filterWaiting: "runningOK q \<Longrightarrow> runningOK (filterWaiting q)"
  by (simp add: filterWaiting_eq runningOK_iff)

lemma set_update_subset: "set (AList.update k v al) \<subseteq> insert (k, v) (set al)"
  by (induction al) auto

lemma distinct_snd_update:
  "distinct (map snd al) \<Longrightarrow> v \<notin> snd ` set al \<Longrightarrow> distinct (map snd (AList.update k v al))"
proof (induction al)
  case Nil
  then show ?case by simp
next
  case (Cons p al)
  have "snd ` set (AList.update k v al) \<subseteq> insert v (snd ` set al)"
    using set_update_subset [of k v al] by force
  with Cons show ?case by (auto simp: image_iff)
qed

lemma runningOK_assign:
  assumes "runningOK q" "assign now i t w q = Inr q'"
  shows "runningOK q'"
proof -
  let ?a = "entryNext q"
  let ?task = "t\<lparr>AgentID := agentID (workerObjs q w)\<rparr>"
  from assms(2) have q': "running q' = AList.update (ID t) ?a (running q)"
    "entries q' = (entries q)(?a := \<lparr>item = ?task, doneClosed = False, error = None,
                                  deadline = now + extension q\<rparr>)"
    "entryNext q' = Suc ?a"
    by (auto simp: assign_def Let_def split: if_splits)
  from assms(1) have fresh: "?a \<notin> snd ` set (running q)"
    by (auto simp: runningOK_iff)
  have sub: "set (running q') \<subseteq> insert (ID t, ?a) (set (running q))"
    unfolding q' by (rule set_update_subset)
  have "distinct (map fst (running q'))"
    using assms(1) by (simp add: q' runningOK_iff distinct_update)
  moreover have "distinct (map snd (running q'))"
    using assms(1) fresh by (simp add: q' runningOK_iff distinct_snd_update)
  moreover have "a < entryNext q' \<and> \<not> doneClosed (entries q' a) \<and> error (entries q' a) = None
      \<and> ID (item (entries q' a)) = k" if "(k, a) \<in> set (running q')" for k a
  proof (cases "(k, a) = (ID t, ?a)")
    case True
    then show ?thesis by (simp add: q')
  next
    case False
    with that sub have in_r: "(k, a) \<in> set (running q)" by auto
    with fresh have "a \<noteq> ?a" by force
    with in_r assms(1) show ?thesis by (auto simp: q' runningOK_iff)
  qed
  ultimately show ?thesis by (auto simp: runningOK_iff)
qed

lemma processLoop_invariant:
  assumes step: "\<And>now q i t w q'. P q \<Longrightarrow> assignToWorker q = Some (i, t, w) \<Longrightarrow> assign now i t w q = Inr q' \<Longrightarrow> P q'"
  shows "P q \<Longrightarrow> processLoop now q = Inr q' \<Longrightarrow> P q'"
proof (induction now q rule: processLoop.induct)
  case (1 now q)
  show ?case
  proof (cases "assignToWorker q")
    case None
    with "1.prems" show ?thesis by (simp add: processLoop.simps)
  next
    case (Some r)
    obtain i t w where r: "r = (i, t, w)" by (cases r)
    from "1.prems"(2) Some r obtain q1 where q1: "assign now i t w q = Inr q1" "processLoop now q1 = Inr q'"
      by (subst (asm) processLoop.simps) (auto split: sum.splits)
    have "P q1" using step [OF "1.prems"(1) _ q1(1)] Some r by simp
    then show ?thesis
      using "1.IH" [OF Some [unfolded r] refl refl q1(1) _ q1(2)] by simp
  qed
qed

lemma runningOK_process:
  assumes "runningOK q" "process now q = Inr q'"
  shows "runningOK q'"
proof (cases "paused q")
  case True
  with assms show ?thesis by (simp add: process_def)
next
  case False
  from runningOK_resubmit [OF assms(1)] obtain q1 where
    q1: "resubmitExpiredPipelines now q = Inr q1" "runningOK q1" by blast
  with assms(2) False have "processLoop now (filterWaiting q1) = Inr q'"
    by (simp add: process_def)
  moreover have "runningOK (filterWaiting q1)" using q1 by (simp add: runningOK_filterWaiting)
  ultimately show ?thesis
    using processLoop_invariant [where P = runningOK] runningOK_assign by blast
qed

lemma running_EvictAtOnce [simp]:
  "running (fst (EvictAtOnce ids q)) = running q"
  "waitingOnDeps (fst (EvictAtOnce ids q)) = waitingOnDeps q"
  "entries (fst (EvictAtOnce ids q)) = entries q"
  "entryNext (fst (EvictAtOnce ids q)) = entryNext q"
  by (induction ids; simp split: option.splits)+

lemma fold_kick_frame:
  "running (fold (\<lambda>w s. if agentID (workerObjs s w) = agent
                 then s\<lparr>workerObjs := (workerObjs s)(w := (workerObjs s w)\<lparr>stop := c\<rparr>),
                        workers := removeAll w (workers s)\<rparr>
                 else s) ws q) = running q
   \<and> pending (fold (\<lambda>w s. if agentID (workerObjs s w) = agent
                 then s\<lparr>workerObjs := (workerObjs s)(w := (workerObjs s w)\<lparr>stop := c\<rparr>),
                        workers := removeAll w (workers s)\<rparr>
                 else s) ws q) = pending q
   \<and> waitingOnDeps (fold (\<lambda>w s. if agentID (workerObjs s w) = agent
                 then s\<lparr>workerObjs := (workerObjs s)(w := (workerObjs s w)\<lparr>stop := c\<rparr>),
                        workers := removeAll w (workers s)\<rparr>
                 else s) ws q) = waitingOnDeps q
   \<and> entries (fold (\<lambda>w s. if agentID (workerObjs s w) = agent
                 then s\<lparr>workerObjs := (workerObjs s)(w := (workerObjs s w)\<lparr>stop := c\<rparr>),
                        workers := removeAll w (workers s)\<rparr>
                 else s) ws q) = entries q
   \<and> entryNext (fold (\<lambda>w s. if agentID (workerObjs s w) = agent
                 then s\<lparr>workerObjs := (workerObjs s)(w := (workerObjs s w)\<lparr>stop := c\<rparr>),
                        workers := removeAll w (workers s)\<rparr>
                 else s) ws q) = entryNext q"
  by (induction ws arbitrary: q) simp_all

lemma Kick_frame [simp]:
  "running (KickAgentWorkers agent q) = running q"
  "pending (KickAgentWorkers agent q) = pending q"
  "waitingOnDeps (KickAgentWorkers agent q) = waitingOnDeps q"
  "entries (KickAgentWorkers agent q) = entries q"
  "entryNext (KickAgentWorkers agent q) = entryNext q"
  by (simp_all add: KickAgentWorkers_def fold_kick_frame)

lemma finished_eq_Inr:
  "finished ids st err q = Inr (q', r) \<longleftrightarrow> finishedLoop ids st err q = Inr q' \<and> r = None"
  by (auto simp: finished_def split: sum.splits)

lemma dropResult_finished:
  "dropResult (finished ids st err q) = finishedLoop ids st err q"
  by (simp add: dropResult_def finished_def split: sum.splits)

lemma runningOK_exec:
  assumes "runningOK q" "exec x q = Inr q'"
  shows "runningOK q'"
proof (cases x)
  case (OpPush t)
  with assms show ?thesis by (auto simp: Push_def runningOK_iff)
next
  case (OpPushAtOnce ts)
  with assms show ?thesis by (auto simp: PushAtOnce_def fold_push runningOK_iff)
next
  case (OpPoll a f)
  with assms show ?thesis by (auto simp: Poll_register_def Let_def runningOK_iff)
next
  case (OpPollSelect w c)
  with assms show ?thesis
    by (auto simp: Poll_select_def runningOK_iff split: select_case.splits option.splits)
next
  case (OpDone k st)
  with assms show ?thesis
    by (auto simp: Done_def dropResult_finished simp del: finishedLoop.simps
        dest: runningOK_finishedLoop)
next
  case (OpError k err)
  with assms show ?thesis
    by (auto simp: Error_def dropResult_finished simp del: finishedLoop.simps
        dest: runningOK_finishedLoop)
next
  case (OpErrorAtOnce ids err)
  with assms show ?thesis
    by (auto simp: ErrorAtOnce_def dropResult_finished simp del: finishedLoop.simps
        dest: runningOK_finishedLoop)
next
  case (OpEvict k)
  with assms show ?thesis by (auto simp: Evict_def runningOK_iff simp del: EvictAtOnce.simps)
next
  case (OpEvictAtOnce ids)
  with assms show ?thesis by (auto simp: runningOK_iff)
next
  case (OpExtend now k)
  with assms show ?thesis
    by (auto simp: Extend_def runningOK_iff split: option.splits if_splits)
next
  case OpPause
  with assms show ?thesis by (auto simp: Pause_def runningOK_iff)
next
  case OpResume
  with assms show ?thesis by (auto simp: Resume_flag_def runningOK_iff)
next
  case (OpKickAgentWorkers a)
  with assms show ?thesis by (auto simp: runningOK_iff)
next
  case (OpProcess now)
  with assms show ?thesis by (auto intro: runningOK_process)
next
  case (OpRange r ws)
  show ?thesis
  proof (cases "mset r = mset (running q) \<and> mset ws = mset (workers q)")
    case False
    with assms OpRange show ?thesis by auto
  next
    case True
    then have m: "mset r = mset (running q)" by simp
    have "distinct (map fst r) = distinct (map fst (running q))"
      by (rule mset_eq_imp_distinct_iff) (simp add: m)
    moreover have "distinct (map snd r) = distinct (map snd (running q))"
      by (rule mset_eq_imp_distinct_iff) (simp add: m)
    moreover have "set r = set (running q)" using m by (rule mset_eq_setD)
    ultimately show ?thesis using assms OpRange True by (auto simp: runningOK_iff)
  qed
qed

lemma runningOK_New: "runningOK New"
  by (simp add: runningOK_def New_def)

lemma runningOK_run:
  "runningOK q \<Longrightarrow> run xs q = Inr q' \<Longrightarrow> runningOK q'"
  by (induction xs arbitrary: q) (auto split: sum.splits dest: runningOK_exec)

subsection \<open>The ids in the queue\<close>

lemma distinct_mset_sub:
  assumes "mset ys \<subseteq># mset xs" "distinct xs"
  shows "distinct ys"
proof -
  have le: "count (mset ys) a \<le> count (mset xs) a" for a
    using assms(1) by (rule mset_subset_eq_count)
  have "count (mset xs) a \<le> 1" for a
    using assms(2) by (simp add: distinct_count_atmost_1)
  with le have "count (mset ys) a \<le> 1" for a
    using order_trans by blast
  moreover have "0 < count (mset ys) a" if "a \<in> set ys" for a
    using that by (simp add: count_greater_zero_iff)
  moreover have "count (mset ys) a = 0" if "a \<notin> set ys" for a
    using that by (simp add: count_eq_zero_iff)
  ultimately show ?thesis
    unfolding distinct_count_atmost_1 [of ys]
    by (metis One_nat_def Suc_leI le_antisym)
qed

lemma mset_queueIDs:
  "mset (queueIDs q) = image_mset ID (mset (pending q)) + image_mset ID (mset (waitingOnDeps q))
      + image_mset fst (mset (running q))"
  by (simp add: queueIDs_def)

lemma assignFrom_nth:
  "assignFrom objs ws k ps = Some (j, t, w) \<Longrightarrow> k \<le> j \<and> j < k + length ps \<and> ps ! (j - k) = t"
proof (induction ps arbitrary: k)
  case Nil
  then show ?case by simp
next
  case (Cons p ps)
  show ?case
  proof (cases "findWorker objs p ws")
    case None
    with Cons.prems have "assignFrom objs ws (Suc k) ps = Some (j, t, w)" by simp
    from Cons.IH [OF this] show ?thesis by (auto simp: Suc_diff_le nth_Cons')
  next
    case (Some w')
    with Cons.prems show ?thesis by simp
  qed
qed

lemma assignToWorker_nth:
  "assignToWorker q = Some (i, t, w) \<Longrightarrow> i < length (pending q) \<and> pending q ! i = t"
  using assignFrom_nth [of "workerObjs q" "workers q" 0 "pending q" i t w]
  by (simp add: assignToWorker_def)

lemma mset_keys_update:
  "mset (map fst (AList.update k v al)) \<subseteq># add_mset k (mset (map fst al))"
  by (simp add: update_keys)

lemma ids_assign:
  assumes "assignToWorker q = Some (i, t, w)" "assign now i t w q = Inr q'"
  shows "mset (queueIDs q') \<subseteq># mset (queueIDs q)"
proof -
  from assignToWorker_nth [OF assms(1)] have i: "i < length (pending q)" and t: "pending q ! i = t"
    by simp_all
  from assms(2) have q': "pending q' = take i (pending q) @ drop (Suc i) (pending q)"
    "waitingOnDeps q' = waitingOnDeps q" "running q' = AList.update (ID t) (entryNext q) (running q)"
    by (auto simp: assign_def Let_def split: if_splits)
  have "pending q = take i (pending q) @ t # drop (Suc i) (pending q)"
    using id_take_nth_drop [OF i] t by simp
  then have "mset (pending q) = add_mset t (mset (pending q'))"
    by (metis q'(1) mset_append mset.simps(2) union_mset_add_mset_right)
  then have p: "image_mset ID (mset (pending q)) = add_mset (ID t) (image_mset ID (mset (pending q')))"
    by simp
  have "image_mset fst (mset (running q')) \<subseteq># add_mset (ID t) (image_mset fst (mset (running q)))"
    using mset_keys_update [of "ID t" "entryNext q" "running q"] by (simp add: q')
  then show ?thesis
    unfolding mset_queueIDs p q'(2)
    by simp
qed

lemma ids_processLoop:
  "processLoop now q = Inr q' \<Longrightarrow> mset (queueIDs q') \<subseteq># mset (queueIDs q)"
  using processLoop_invariant [where P = "\<lambda>s. mset (queueIDs s) \<subseteq># mset (queueIDs q)" and q = q and q' = q' and now = now]
    ids_assign subset_mset.order_trans by blast

lemma ids_resubmit:
  assumes "runningOK q" "resubmitExpiredPipelines now q = Inr q'"
  shows "mset (queueIDs q') = mset (queueIDs q)"
proof -
  have "image_mset ID (mset (map (\<lambda>(k, a). item (entries q a)) (filter (expired now q) (running q))))
      = image_mset fst (filter_mset (expired now q) (mset (running q)))"
    using assms(1) by (auto simp: runningOK_iff multiset.map_comp intro!: image_mset_cong)
  moreover have "image_mset fst (mset (running q)) =
      image_mset fst (filter_mset (expired now q) (mset (running q)))
      + image_mset fst (filter_mset (\<lambda>e. \<not> expired now q e) (mset (running q)))"
    by (subst multiset_partition [of "mset (running q)" "expired now q"]) (simp only: image_mset_union)
  moreover from assms have
    "pending q' = rev (map (\<lambda>(k, a). item (entries q a)) (filter (expired now q) (running q))) @ pending q"
    "running q' = filter (\<lambda>e. \<not> expired now q e) (running q)"
    "waitingOnDeps q' = waitingOnDeps q"
    by (auto simp: resubmitExpiredPipelines_eq)
  ultimately show ?thesis
    by (simp add: mset_queueIDs del: mset_map)
qed

lemma ids_filterWaiting: "mset (queueIDs (filterWaiting q)) = mset (queueIDs q)"
proof -
  let ?P = "depsInQueue (q\<lparr>pending := pending q @ waitingOnDeps q\<rparr>)"
  let ?M = "mset (pending q @ waitingOnDeps q)"
  have "image_mset ID ?M = image_mset ID (filter_mset ?P ?M) + image_mset ID (filter_mset (\<lambda>t. \<not> ?P t) ?M)"
    by (subst multiset_partition [of ?M ?P]) (simp only: image_mset_union)
  then show ?thesis
    by (simp add: filterWaiting_eq mset_queueIDs)
qed

lemma ids_process:
  assumes "runningOK q" "process now q = Inr q'"
  shows "mset (queueIDs q') \<subseteq># mset (queueIDs q)"
proof (cases "paused q")
  case True
  with assms show ?thesis by (simp add: process_def)
next
  case False
  from runningOK_resubmit [OF assms(1)] obtain q1 where
    q1: "resubmitExpiredPipelines now q = Inr q1" by blast
  with assms(2) False have "processLoop now (filterWaiting q1) = Inr q'"
    by (simp add: process_def)
  from ids_processLoop [OF this] show ?thesis
    by (simp add: ids_filterWaiting ids_resubmit [OF assms(1) q1])
qed

lemma scanRemove_mset:
  "scanRemove k ps = Some ps' \<Longrightarrow> mset ps' \<subseteq># mset ps"
  by (induction ps arbitrary: ps') (auto split: if_splits intro: subset_mset.order_trans)

lemma ids_removeFromPending:
  "mset (queueIDs (removeFromPending k q)) \<subseteq># mset (queueIDs q)"
  by (auto simp: removeFromPending_def mset_queueIDs split: option.splits
      dest!: scanRemove_mset intro!: image_mset_subseteq_mono)

lemma ids_depStatusWritten [simp]:
  "queueIDs (depStatusWritten k st q) = queueIDs q"
  by (simp add: queueIDs_def)

lemma ids_finishOne:
  assumes "finishOne st err k q = Inr q'"
  shows "mset (queueIDs q') \<subseteq># mset (queueIDs q)"
  using assms
proof (cases rule: finishOne_cases)
  case (1 a)
  then have "queueIDs q' = map ID (pending q) @ map ID (waitingOnDeps q) @ map fst (AList.delete k (running q))"
    by (simp add: queueIDs_def)
  then show ?thesis
    by (simp add: mset_queueIDs AList.delete_eq image_mset_subseteq_mono)
next
  case 2
  then show ?thesis by (simp add: ids_removeFromPending)
qed

lemma ids_finishedLoop:
  "finishedLoop ids st err q = Inr q' \<Longrightarrow> mset (queueIDs q') \<subseteq># mset (queueIDs q)"
proof (induction ids arbitrary: q)
  case Nil
  then show ?case by simp
next
  case (Cons k ids)
  then obtain q1 where "finishOne st err k q = Inr q1" "finishedLoop ids st err q1 = Inr q'"
    by (auto split: sum.splits)
  with Cons.IH [of q1] ids_finishOne [of st err k q q1] show ?case
    using subset_mset.order_trans by blast
qed

lemma ids_EvictAtOnce:
  "mset (queueIDs (fst (EvictAtOnce ids q))) \<subseteq># mset (queueIDs q)"
proof (induction ids)
  case Nil
  then show ?case by simp
next
  case (Cons k ids)
  then show ?case
    by (auto simp: mset_queueIDs split: option.splits dest!: scanRemove_mset intro!: image_mset_subseteq_mono)
qed

lemma ids_exec:
  assumes "runningOK q" "exec x q = Inr q'" "\<forall>t. x \<noteq> OpPush t" "\<forall>ts. x \<noteq> OpPushAtOnce ts"
  shows "mset (queueIDs q') \<subseteq># mset (queueIDs q)"
proof (cases x)
  case (OpPush t)
  with assms show ?thesis by simp
next
  case (OpPushAtOnce ts)
  with assms show ?thesis by simp
next
  case (OpPoll a f)
  with assms show ?thesis by (auto simp: Poll_register_def Let_def queueIDs_def)
next
  case (OpPollSelect w c)
  with assms show ?thesis
    by (auto simp: Poll_select_def queueIDs_def split: select_case.splits option.splits)
next
  case (OpDone k st)
  with assms ids_finishedLoop [of "[k]" st None q q'] show ?thesis
    by (auto simp: Done_def dropResult_finished simp del: finishedLoop.simps)
next
  case (OpError k err)
  with assms ids_finishedLoop [of "[k]" StatusFailure err q q'] show ?thesis
    by (auto simp: Error_def dropResult_finished simp del: finishedLoop.simps)
next
  case (OpErrorAtOnce ids err)
  with assms ids_finishedLoop [of ids StatusFailure err q q'] show ?thesis
    by (auto simp: ErrorAtOnce_def dropResult_finished simp del: finishedLoop.simps)
next
  case (OpEvict k)
  with assms ids_EvictAtOnce [of "[k]" q] show ?thesis
    by (auto simp: Evict_def simp del: EvictAtOnce.simps)
next
  case (OpEvictAtOnce ids)
  with assms ids_EvictAtOnce [of ids q] show ?thesis by auto
next
  case (OpExtend now k)
  with assms show ?thesis by (auto simp: Extend_def queueIDs_def split: option.splits)
next
  case OpPause
  with assms show ?thesis by (auto simp: Pause_def queueIDs_def)
next
  case OpResume
  with assms show ?thesis by (auto simp: Resume_flag_def queueIDs_def)
next
  case (OpKickAgentWorkers a)
  with assms show ?thesis by (auto simp: queueIDs_def)
next
  case (OpProcess now)
  with assms show ?thesis by (auto intro: ids_process)
next
  case (OpRange r ws)
  with assms show ?thesis by (auto simp: mset_queueIDs split: if_splits)
qed

lemma distinct_push:
  "distinct (A @ B @ C) \<Longrightarrow> distinct N \<Longrightarrow> set N \<inter> set (A @ B @ C) = {}
   \<Longrightarrow> distinct ((A @ N) @ B @ C)"
  by auto

lemma distinct_ids_exec:
  assumes "runningOK q" "distinct (queueIDs q)" "pushesFresh x q" "exec x q = Inr q'"
  shows "distinct (queueIDs q')"
proof (cases "(\<forall>t. x \<noteq> OpPush t) \<and> (\<forall>ts. x \<noteq> OpPushAtOnce ts)")
  case True
  with assms ids_exec [of q x q'] show ?thesis by (auto intro: distinct_mset_sub)
next
  case False
  then consider t where "x = OpPush t" | ts where "x = OpPushAtOnce ts" by blast
  then show ?thesis
  proof cases
    case 1
    with assms(4) have "queueIDs q' = (map ID (pending q) @ [ID t]) @ map ID (waitingOnDeps q) @ map fst (running q)"
      by (auto simp: Push_def queueIDs_def)
    moreover from 1 assms(3) have "set [ID t] \<inter> set (queueIDs q) = {}" by simp
    ultimately show ?thesis
      using assms(2) distinct_push [of "map ID (pending q)" "map ID (waitingOnDeps q)" "map fst (running q)" "[ID t]"]
      by (simp add: queueIDs_def)
  next
    case 2
    with assms(4) have "queueIDs q' = (map ID (pending q) @ map ID ts) @ map ID (waitingOnDeps q) @ map fst (running q)"
      by (auto simp: PushAtOnce_def fold_push queueIDs_def)
    moreover from 2 assms(3) have "set (map ID ts) \<inter> set (queueIDs q) = {}" "distinct (map ID ts)"
      by (auto simp: list_all_iff)
    ultimately show ?thesis
      using assms(2) distinct_push [of "map ID (pending q)" "map ID (waitingOnDeps q)" "map fst (running q)" "map ID ts"]
      by (simp add: queueIDs_def)
  qed
qed

lemma distinct_ids_run:
  "runningOK q \<Longrightarrow> distinct (queueIDs q) \<Longrightarrow> freshRun xs q \<Longrightarrow> run xs q = Inr q'
   \<Longrightarrow> distinct (queueIDs q')"
proof (induction xs arbitrary: q)
  case Nil
  then show ?case by simp
next
  case (Cons x xs)
  from Cons.prems(4) obtain q1 where q1: "exec x q = Inr q1" "run xs q1 = Inr q'"
    by (auto split: sum.splits)
  with Cons.prems have "runningOK q1" "distinct (queueIDs q1)" "freshRun xs q1"
    by (auto intro: runningOK_exec distinct_ids_exec)
  with Cons.IH q1 show ?case by blast
qed

lemma idsDisjoint_distinct: "distinct (queueIDs q) \<Longrightarrow> idsDisjoint q"
  by (auto simp: queueIDs_def idsDisjoint_def)

lemma finishOne_not_running_after:
  assumes "finishOne st err k q = Inr q'"
  shows "map_of (running q') k = None"
  using assms by (cases rule: finishOne_cases) (simp_all add: delete_conv)

subsection \<open>No history from New faults\<close>

lemma workersOK_iff:
  "workersOK q \<longleftrightarrow> (\<forall>w\<in>set (workers q). w < workerNext q \<and> channel (workerObjs q w) = None)"
  by (simp add: workersOK_def list_all_iff)

lemma findWorker_mem: "findWorker objs t ws = Some w \<Longrightarrow> w \<in> set ws"
  by (induction ws) (auto split: if_splits)

lemma assignFrom_mem: "assignFrom objs ws i ps = Some (j, t, w) \<Longrightarrow> w \<in> set ws"
  by (induction ps arbitrary: i) (auto split: option.splits dest: findWorker_mem)

lemma assign_total:
  assumes "workersOK q" "assignToWorker q = Some (i, t, w)"
  shows "\<exists>q'. assign now i t w q = Inr q' \<and> workersOK q'"
proof -
  from assms(2) have "w \<in> set (workers q)"
    by (auto simp: assignToWorker_def dest: assignFrom_mem)
  with assms(1) have "channel (workerObjs q w) = None" by (simp add: workersOK_iff)
  then show ?thesis
    using assms(1) by (auto simp: assign_def Let_def workersOK_iff)
qed

lemma processLoop_total:
  "workersOK q \<Longrightarrow> \<exists>q'. processLoop now q = Inr q' \<and> workersOK q'"
proof (induction now q rule: processLoop.induct)
  case (1 now q)
  show ?case
  proof (cases "assignToWorker q")
    case None
    with "1.prems" show ?thesis by (simp add: processLoop.simps)
  next
    case (Some r)
    obtain i t w where r: "r = (i, t, w)" by (cases r)
    from assign_total [OF "1.prems" Some [unfolded r], of now] obtain q1 where
      q1: "assign now i t w q = Inr q1" "workersOK q1" by blast
    from "1.IH" [OF Some [unfolded r] refl refl q1] obtain q' where
      "processLoop now q1 = Inr q'" "workersOK q'" by blast
    then show ?thesis
      using Some r q1 by (subst processLoop.simps) simp
  qed
qed

lemma workersOK_resubmit:
  "runningOK q \<Longrightarrow> workersOK q \<Longrightarrow> resubmitExpiredPipelines now q = Inr q' \<Longrightarrow> workersOK q'"
  by (auto simp: resubmitExpiredPipelines_eq workersOK_iff)

lemma workersOK_filterWaiting: "workersOK q \<Longrightarrow> workersOK (filterWaiting q)"
  by (simp add: filterWaiting_eq workersOK_iff)

lemma process_total:
  assumes "runningOK q" "workersOK q"
  shows "\<exists>q'. process now q = Inr q' \<and> workersOK q'"
proof (cases "paused q")
  case True
  with assms show ?thesis by (simp add: process_def)
next
  case False
  from runningOK_resubmit [OF assms(1)] obtain q1 where
    q1: "resubmitExpiredPipelines now q = Inr q1" by blast
  then have "workersOK (filterWaiting q1)"
    using assms by (auto intro: workersOK_filterWaiting workersOK_resubmit)
  from processLoop_total [OF this, of now] show ?thesis
    using False q1 by (simp add: process_def)
qed

lemma workers_removeFromPending [simp]:
  "workers (removeFromPending k q) = workers q"
  "workerObjs (removeFromPending k q) = workerObjs q"
  "workerNext (removeFromPending k q) = workerNext q"
  by (simp_all add: removeFromPending_def split: option.splits)

lemma workersOK_finishOne:
  assumes "workersOK q" "finishOne st err k q = Inr q'"
  shows "workersOK q'"
  using assms(2) assms(1) by (cases rule: finishOne_cases) (simp_all add: workersOK_iff)

lemma workersOK_finishedLoop:
  "workersOK q \<Longrightarrow> finishedLoop ids st err q = Inr q' \<Longrightarrow> workersOK q'"
  by (induction ids arbitrary: q) (auto split: sum.splits dest: workersOK_finishOne)

lemma workers_EvictAtOnce [simp]:
  "workers (fst (EvictAtOnce ids q)) = workers q"
  "workerObjs (fst (EvictAtOnce ids q)) = workerObjs q"
  "workerNext (fst (EvictAtOnce ids q)) = workerNext q"
  by (induction ids; simp split: option.splits)+

lemma fold_kick_workers:
  "\<forall>w\<in>set (workers q). w < workerNext q \<and> channel (workerObjs q w) = None \<Longrightarrow>
   \<forall>w\<in>set (workers (fold (\<lambda>w s. if agentID (workerObjs s w) = agent
                 then s\<lparr>workerObjs := (workerObjs s)(w := (workerObjs s w)\<lparr>stop := c\<rparr>),
                        workers := removeAll w (workers s)\<rparr>
                 else s) ws q)).
      w < workerNext (fold (\<lambda>w s. if agentID (workerObjs s w) = agent
                 then s\<lparr>workerObjs := (workerObjs s)(w := (workerObjs s w)\<lparr>stop := c\<rparr>),
                        workers := removeAll w (workers s)\<rparr>
                 else s) ws q)
      \<and> channel (workerObjs (fold (\<lambda>w s. if agentID (workerObjs s w) = agent
                 then s\<lparr>workerObjs := (workerObjs s)(w := (workerObjs s w)\<lparr>stop := c\<rparr>),
                        workers := removeAll w (workers s)\<rparr>
                 else s) ws q) w) = None"
  by (induction ws arbitrary: q) auto

lemma workersOK_Kick: "workersOK q \<Longrightarrow> workersOK (KickAgentWorkers agent q)"
  unfolding workersOK_iff KickAgentWorkers_def by (rule fold_kick_workers)

lemma allTasks_resubmit:
  assumes "runningOK q" "allTasks P q" "resubmitExpiredPipelines now q = Inr q'"
  shows "allTasks P q'"
proof -
  from assms(3) have q': "q' = q\<lparr>pending := rev (map (\<lambda>(k, a). item (entries q a))
                                              (filter (expired now q) (running q))) @ pending q,
            running := filter (\<lambda>e. \<not> expired now q e) (running q),
            entries := (\<lambda>a. if a \<in> snd ` set (filter (expired now q) (running q))
                             then (entries q a)\<lparr>doneClosed := True\<rparr> else entries q a)\<rparr>"
    by (simp add: resubmitExpiredPipelines_eq [OF assms(1)])
  show ?thesis
    unfolding q' using assms(2) by (auto simp: allTasks_iff)
qed

lemma allTasks_filterWaiting: "allTasks P q \<Longrightarrow> allTasks P (filterWaiting q)"
  by (auto simp: filterWaiting_eq allTasks_iff)

lemma allTasks_assign:
  assumes agent: "\<And>t n. P (t\<lparr>AgentID := n\<rparr>) = P t"
    and "runningOK q" "allTasks P q" "assignToWorker q = Some (i, t, w)" "assign now i t w q = Inr q'"
  shows "allTasks P q'"
proof -
  let ?a = "entryNext q"
  let ?task = "t\<lparr>AgentID := agentID (workerObjs q w)\<rparr>"
  from assms(5) have q': "running q' = AList.update (ID t) ?a (running q)"
    "entries q' = (entries q)(?a := \<lparr>item = ?task, doneClosed = False, error = None,
                                  deadline = now + extension q\<rparr>)"
    "pending q' = take i (pending q) @ drop (Suc i) (pending q)"
    "waitingOnDeps q' = waitingOnDeps q"
    by (auto simp: assign_def Let_def split: if_splits)
  from assignToWorker_nth [OF assms(4)] have "t \<in> set (pending q)" by (auto simp: set_conv_nth)
  with assms(3) have Pt: "P ?task" by (simp add: allTasks_iff agent)
  have "set (pending q') \<subseteq> set (pending q)"
    unfolding q' using set_take_subset [of i "pending q"] set_drop_subset [of "Suc i" "pending q"]
    by auto
  moreover have "P (item (entries q' a))" if "(k, a) \<in> set (running q')" for k a
  proof (cases "a = ?a")
    case True
    with Pt show ?thesis by (simp add: q')
  next
    case False
    with that set_update_subset [of "ID t" ?a "running q"] have "(k, a) \<in> set (running q)"
      by (auto simp: q')
    with assms(3) False show ?thesis by (auto simp: allTasks_iff q')
  qed
  ultimately show ?thesis
    using assms(3) by (auto simp: allTasks_iff q'(4))
qed

lemma allTasks_process:
  assumes agent: "\<And>t n. P (t\<lparr>AgentID := n\<rparr>) = P t"
    and "runningOK q" "allTasks P q" "process now q = Inr q'"
  shows "allTasks P q'"
proof (cases "paused q")
  case True
  with assms show ?thesis by (simp add: process_def)
next
  case False
  from runningOK_resubmit [OF assms(2)] obtain q1 where
    q1: "resubmitExpiredPipelines now q = Inr q1" "runningOK q1" by blast
  with assms(4) False have loop: "processLoop now (filterWaiting q1) = Inr q'"
    by (simp add: process_def)
  have start: "runningOK (filterWaiting q1) \<and> allTasks P (filterWaiting q1)"
    using q1 assms(2,3)
    by (auto intro: runningOK_filterWaiting allTasks_filterWaiting allTasks_resubmit)
  have "runningOK q' \<and> allTasks P q'"
  proof (rule processLoop_invariant [where P = "\<lambda>s. runningOK s \<and> allTasks P s" and now = now
        and q = "filterWaiting q1"])
    show "runningOK (filterWaiting q1) \<and> allTasks P (filterWaiting q1)" by (rule start)
    show "processLoop now (filterWaiting q1) = Inr q'" by (rule loop)
  next
    fix n s i t w s'
    assume a: "runningOK s \<and> allTasks P s" "assignToWorker s = Some (i, t, w)"
      "assign n i t w s = Inr s'"
    from a have "runningOK s'" by (blast intro: runningOK_assign)
    moreover from a have "allTasks P s'"
      using allTasks_assign [where P = P, OF agent] by blast
    ultimately show "runningOK s' \<and> allTasks P s'" by simp
  qed
  then show ?thesis by simp
qed

lemma allTasks_EvictAtOnce: "allTasks P q \<Longrightarrow> allTasks P (fst (EvictAtOnce ids q))"
proof (induction ids)
  case Nil
  then show ?case by simp
next
  case (Cons k ids)
  show ?case
  proof (cases "scanRemove k (pending q)")
    case None
    with Cons show ?thesis by simp
  next
    case (Some ps)
    from scanRemove_subset [OF Some] Cons.prems have "allTasks P (q\<lparr>pending := ps\<rparr>)"
      by (auto simp: allTasks_iff)
    with Some show ?thesis by simp
  qed
qed

lemma tasksAllocated_exec:
  assumes "runningOK q" "tasksAllocated q" "pushesAllocated x" "exec x q = Inr q'"
  shows "tasksAllocated q'"
proof (cases x)
  case (OpPush t)
  with assms show ?thesis by (auto simp: Push_def tasksAllocated_def allTasks_iff)
next
  case (OpPushAtOnce ts)
  with assms show ?thesis
    by (auto simp: PushAtOnce_def fold_push tasksAllocated_def allTasks_iff list_all_iff)
next
  case (OpPoll a f)
  with assms show ?thesis by (auto simp: Poll_register_def Let_def tasksAllocated_def allTasks_iff)
next
  case (OpPollSelect w c)
  with assms show ?thesis
    by (auto simp: Poll_select_def tasksAllocated_def allTasks_iff
        split: select_case.splits option.splits)
next
  case (OpDone k st)
  with assms show ?thesis
    by (auto simp: Done_def dropResult_finished simp del: finishedLoop.simps
        dest: tasksAllocated_finishedLoop)
next
  case (OpError k err)
  with assms show ?thesis
    by (auto simp: Error_def dropResult_finished simp del: finishedLoop.simps
        dest: tasksAllocated_finishedLoop)
next
  case (OpErrorAtOnce ids err)
  with assms show ?thesis
    by (auto simp: ErrorAtOnce_def dropResult_finished simp del: finishedLoop.simps
        dest: tasksAllocated_finishedLoop)
next
  case (OpEvict k)
  with assms allTasks_EvictAtOnce [of "\<lambda>task. DepStatus task \<noteq> None" q "[k]"] show ?thesis
    by (auto simp: Evict_def tasksAllocated_def simp del: EvictAtOnce.simps)
next
  case (OpEvictAtOnce ids)
  with assms allTasks_EvictAtOnce [of "\<lambda>task. DepStatus task \<noteq> None" q ids] show ?thesis
    by (auto simp: tasksAllocated_def)
next
  case (OpExtend now k)
  with assms show ?thesis
    by (auto simp: Extend_def tasksAllocated_def allTasks_iff split: option.splits if_splits)
next
  case OpPause
  with assms show ?thesis by (auto simp: Pause_def tasksAllocated_def allTasks_iff)
next
  case OpResume
  with assms show ?thesis by (auto simp: Resume_flag_def tasksAllocated_def allTasks_iff)
next
  case (OpKickAgentWorkers a)
  with assms show ?thesis by (auto simp: tasksAllocated_def allTasks_iff)
next
  case (OpProcess now)
  with assms allTasks_process [of "\<lambda>task. DepStatus task \<noteq> None" q now q'] show ?thesis
    by (simp add: tasksAllocated_def)
next
  case (OpRange r ws)
  show ?thesis
  proof (cases "mset r = mset (running q) \<and> mset ws = mset (workers q)")
    case False
    with assms OpRange show ?thesis by auto
  next
    case True
    then have "set r = set (running q)" by (auto dest: mset_eq_setD)
    with assms OpRange True show ?thesis by (auto simp: tasksAllocated_def allTasks_iff)
  qed
qed

lemma workersOK_exec:
  assumes "runningOK q" "workersOK q" "exec x q = Inr q'"
  shows "workersOK q'"
proof (cases x)
  case (OpPush t)
  with assms show ?thesis by (auto simp: Push_def workersOK_iff)
next
  case (OpPushAtOnce ts)
  with assms show ?thesis by (auto simp: PushAtOnce_def fold_push workersOK_iff)
next
  case (OpPoll a f)
  with assms show ?thesis by (auto simp: Poll_register_def Let_def workersOK_iff less_Suc_eq)
next
  case (OpPollSelect w c)
  with assms show ?thesis
    by (auto simp: Poll_select_def workersOK_iff split: select_case.splits option.splits)
next
  case (OpDone k st)
  with assms show ?thesis
    by (auto simp: Done_def dropResult_finished simp del: finishedLoop.simps
        dest: workersOK_finishedLoop)
next
  case (OpError k err)
  with assms show ?thesis
    by (auto simp: Error_def dropResult_finished simp del: finishedLoop.simps
        dest: workersOK_finishedLoop)
next
  case (OpErrorAtOnce ids err)
  with assms show ?thesis
    by (auto simp: ErrorAtOnce_def dropResult_finished simp del: finishedLoop.simps
        dest: workersOK_finishedLoop)
next
  case (OpEvict k)
  with assms show ?thesis by (auto simp: Evict_def workersOK_iff simp del: EvictAtOnce.simps)
next
  case (OpEvictAtOnce ids)
  with assms show ?thesis by (auto simp: workersOK_iff)
next
  case (OpExtend now k)
  with assms show ?thesis by (auto simp: Extend_def workersOK_iff split: option.splits)
next
  case OpPause
  with assms show ?thesis by (auto simp: Pause_def workersOK_iff)
next
  case OpResume
  with assms show ?thesis by (auto simp: Resume_flag_def workersOK_iff)
next
  case (OpKickAgentWorkers a)
  with assms show ?thesis by (auto intro: workersOK_Kick)
next
  case (OpProcess now)
  with assms process_total [OF assms(1,2), of now] show ?thesis by auto
next
  case (OpRange r ws)
  show ?thesis
  proof (cases "mset r = mset (running q) \<and> mset ws = mset (workers q)")
    case False
    with assms OpRange show ?thesis by auto
  next
    case True
    then have "set ws = set (workers q)" by (auto dest: mset_eq_setD)
    with assms OpRange True show ?thesis by (auto simp: workersOK_iff)
  qed
qed

lemma exec_total:
  assumes "runningOK q" "workersOK q" "tasksAllocated q"
  shows "\<exists>q'. exec x q = Inr q'"
proof (cases x)
  case (OpDone k st)
  from finishedLoop_total [OF assms(1), of "[k]" st None] tasksAllocated_depMapsFor [OF assms(3)]
  show ?thesis
    by (auto simp: OpDone Done_def dropResult_finished simp del: finishedLoop.simps)
next
  case (OpError k err)
  from finishedLoop_total [OF assms(1), of "[k]" StatusFailure err]
    tasksAllocated_depMapsFor [OF assms(3)]
  show ?thesis
    by (auto simp: OpError Error_def dropResult_finished simp del: finishedLoop.simps)
next
  case (OpErrorAtOnce ids err)
  from finishedLoop_total [OF assms(1), of ids StatusFailure err]
    tasksAllocated_depMapsFor [OF assms(3)]
  show ?thesis
    by (auto simp: OpErrorAtOnce ErrorAtOnce_def dropResult_finished simp del: finishedLoop.simps)
next
  case (OpProcess now)
  with process_total [OF assms(1,2), of now] show ?thesis by auto
next
  case (OpPollSelect w c)
  then show ?thesis by (auto split: option.splits)
qed simp_all

lemma workersOK_New: "workersOK New"
  by (simp add: workersOK_def New_def)

lemma tasksAllocated_New: "tasksAllocated New"
  by (simp add: tasksAllocated_def allTasks_def New_def)

lemma run_total:
  "runningOK q \<Longrightarrow> workersOK q \<Longrightarrow> tasksAllocated q \<Longrightarrow> list_all pushesAllocated xs
   \<Longrightarrow> \<exists>q'. run xs q = Inr q'"
proof (induction xs arbitrary: q)
  case Nil
  then show ?case by simp
next
  case (Cons x xs)
  from exec_total [OF Cons.prems(1-3), of x] obtain q1 where
    q1: "exec x q = Inr q1" by blast
  have "runningOK q1" using Cons.prems(1) q1 by (rule runningOK_exec)
  moreover have "workersOK q1" using Cons.prems(1,2) q1 by (rule workersOK_exec)
  moreover have "tasksAllocated q1"
    using Cons.prems(1,3) _ q1 by (rule tasksAllocated_exec) (use Cons.prems(4) in simp)
  ultimately show ?case using Cons.IH [of q1] Cons.prems(4) q1 by simp
qed

lemma run_New_total: "list_all pushesAllocated xs \<Longrightarrow> \<exists>q. run xs New = Inr q"
  using run_total [OF runningOK_New workersOK_New tasksAllocated_New] .

lemma runningOK_reachable: "run xs New = Inr q \<Longrightarrow> runningOK q"
  using runningOK_run [OF runningOK_New] .

lemma finishOne_entry:
  assumes "runningOK q" "map_of (running q) k = Some a" "finishOne st err k q = Inr q'"
  shows "entries q' a = (entries q a)\<lparr>error := err, doneClosed := True\<rparr>"
    and "running q' = AList.delete k (running q)"
    and "pending q' = map (withDepStatus k st) (pending q)"
proof -
  from assms(2) have in_r: "(k, a) \<in> set (running q)" by (rule map_of_SomeD)
  have "a' \<noteq> a" if "(k', a') \<in> set (AList.delete k (running q))" for k' a'
    using that assms(1) in_r distinct_snd_neq [of "running q" k a k' a']
    by (auto simp: runningOK_iff AList.delete_eq)
  then have na: "a \<notin> snd ` set (AList.delete k (running q))" by force
  from assms(3) assms(2) have q': "q' = depStatusWritten k st
      (q\<lparr>entries := (entries q)(a := (entries q a)\<lparr>error := err, doneClosed := True\<rparr>),
         running := AList.delete k (running q)\<rparr>)"
    by (cases rule: finishOne_cases) simp_all
  show "entries q' a = (entries q a)\<lparr>error := err, doneClosed := True\<rparr>"
    using na by (simp add: q' entries_depStatusWritten)
  show "running q' = AList.delete k (running q)" by (simp add: q')
  show "pending q' = map (withDepStatus k st) (pending q)" by (simp add: q')
qed

lemma finishOne_pending:
  assumes "map_of (running q) k = None" "finishOne st err k q = Inr q'"
  shows "running q' = running q"
    and "pending q = xs @ t # ys \<Longrightarrow> ID t = k \<Longrightarrow> k \<notin> ID ` set xs \<Longrightarrow>
           pending q' = map (withDepStatus k st) (xs @ ys)"
    and "k \<notin> ID ` set (pending q) \<Longrightarrow> pending q' = map (withDepStatus k st) (pending q)"
proof -
  from assms(2) assms(1) have q': "q' = depStatusWritten k st (removeFromPending k q)"
    by (cases rule: finishOne_cases) simp_all
  show "running q' = running q" by (simp add: q')
  show "pending q' = map (withDepStatus k st) (xs @ ys)"
    if "pending q = xs @ t # ys" "ID t = k" "k \<notin> ID ` set xs"
    using scanRemove_split [OF that] by (simp add: q' removeFromPending_def)
  show "pending q' = map (withDepStatus k st) (pending q)" if "k \<notin> ID ` set (pending q)"
    using that scanRemove_None [of k "pending q"] by (simp add: q' removeFromPending_def)
qed

lemma finishOne_written:
  assumes "runningOK q" "finishOne st err k q = Inr q'"
  shows "waitingOnDeps q' = map (withDepStatus k st) (waitingOnDeps q)"
    and "\<forall>(k', a)\<in>set (running q'). item (entries q' a) = withDepStatus k st (item (entries q a))"
proof -
  show "waitingOnDeps q' = map (withDepStatus k st) (waitingOnDeps q)"
    using assms(2) by (cases rule: finishOne_cases) simp_all
  show "\<forall>(k', a)\<in>set (running q'). item (entries q' a) = withDepStatus k st (item (entries q a))"
    using assms(2)
  proof (cases rule: finishOne_cases)
    case (1 a)
    from 1(1) have in_r: "(k, a) \<in> set (running q)" by (rule map_of_SomeD)
    have "a' \<noteq> a" if "(k', a') \<in> set (AList.delete k (running q))" for k' a'
      using that assms(1) in_r distinct_snd_neq [of "running q" k a k' a']
      by (auto simp: runningOK_iff AList.delete_eq)
    then show ?thesis
      unfolding 1(4) by (auto simp: entries_depStatusWritten image_iff)
  next
    case 2
    then show ?thesis by (auto simp: entries_depStatusWritten image_iff)
  qed
qed

lemma finishOne_fault:
  assumes "runningOK q" "finishOne st err k q = Inl f"
  shows "f = AssignToNilMap \<and> \<not> depMapsFor k q"
proof -
  from finishOne_total [OF assms(1), of k st err] assms(2) have n: "\<not> depMapsFor k q" by auto
  have "f = AssignToNilMap"
  proof (cases "map_of (running q) k")
    case None
    with assms(2) show ?thesis
      by (auto simp: finishOne_not_running updateDepStatusInQueue_eq split: if_splits)
  next
    case (Some a)
    with assms show ?thesis
      by (auto simp: finishOne_running updateDepStatusInQueue_eq split: if_splits)
  qed
  with n show ?thesis by simp
qed

lemma finished_Inr: "finished ids st err q = Inr (q', r) \<Longrightarrow> finishedLoop ids st err q = Inr q' \<and> r = None"
  by (auto simp: finished_def split: sum.splits)

lemma finished_total:
  "runningOK q \<Longrightarrow> \<forall>k\<in>set ids. depMapsFor k q \<Longrightarrow> \<exists>q'. finished ids st err q = Inr (q', None)"
  using finishedLoop_total [of q ids st err] by (auto simp: finished_def)

lemma finished_Cons:
  "finishOne st err k q = Inr q1 \<Longrightarrow> finished (k # ids) st err q = finished ids st err q1"
  by (simp add: finished_def)

lemma finished_single:
  "finished [k] st err q = Inr (q', r) \<longleftrightarrow> finishOne st err k q = Inr q' \<and> r = None"
  by (auto simp: finished_def split: sum.splits)

lemma paused_resubmitLoop: "resubmitLoop now rs q = Inr q' \<Longrightarrow> paused q' = paused q"
proof (induction rs arbitrary: q)
  case Nil
  then show ?case by simp
next
  case (Cons p rs)
  obtain k a where p: "p = (k, a)" by (cases p)
  show ?case
  proof (cases "deadline (entries q a) < now")
    case False
    with Cons.prems p have "resubmitLoop now rs q = Inr q'" by simp
    then show ?thesis by (rule Cons.IH)
  next
    case True
    with Cons.prems p have "resubmitLoop now rs
        (q\<lparr>pending := item (entries q a) # pending q,
           running := AList.delete k (running q),
           entries := (entries q)(a := (entries q a)\<lparr>doneClosed := True\<rparr>)\<rparr>) = Inr q'"
      by (simp split: if_splits)
    from Cons.IH [OF this] show ?thesis by simp
  qed
qed

lemma paused_process:
  assumes "process now q = Inr q'"
  shows "paused q' = paused q"
proof (cases "paused q")
  case True
  with assms show ?thesis by (simp add: process_def)
next
  case False
  with assms obtain q1 where q1: "resubmitLoop now (running q) q = Inr q1"
    and loop: "processLoop now (filterWaiting q1) = Inr q'"
    by (auto simp: process_def resubmitExpiredPipelines_def split: sum.splits)
  have "paused (filterWaiting q1) = paused q"
    using paused_resubmitLoop [OF q1] by (simp add: filterWaiting_eq)
  moreover have "paused q' = paused (filterWaiting q1)"
  proof (rule processLoop_invariant [where P = "\<lambda>s. paused s = paused (filterWaiting q1)"
        and now = now and q = "filterWaiting q1"])
    show "paused (filterWaiting q1) = paused (filterWaiting q1)" by simp
    show "processLoop now (filterWaiting q1) = Inr q'" by (rule loop)
  next
    fix n s i t w s'
    assume "paused s = paused (filterWaiting q1)" "assign n i t w s = Inr s'"
    then show "paused s' = paused (filterWaiting q1)"
      by (auto simp: assign_def Let_def split: if_splits)
  qed
  ultimately show ?thesis by simp
qed

lemma map_of_filter_keep:
  "distinct (map fst rs) \<Longrightarrow> (k, a) \<in> set rs \<Longrightarrow> P (k, a) \<Longrightarrow> map_of (filter P rs) k = Some a"
  by (rule map_of_is_SomeI) (auto simp: distinct_map_filter)

lemma map_of_filter_drop:
  "distinct (map fst rs) \<Longrightarrow> (k, a) \<in> set rs \<Longrightarrow> \<not> P (k, a) \<Longrightarrow> map_of (filter P rs) k = None"
  by (auto simp: map_of_eq_None_iff image_iff dest: eq_key_imp_eq_value)

lemma EvictAtOnce_NotFound:
  "\<forall>k\<in>set ids. k \<notin> ID ` set (pending q) \<Longrightarrow> EvictAtOnce ids q = (q, Some ErrNotFound)"
  by (induction ids) (auto simp: scanRemove_None [symmetric])

lemma EvictAtOnce_first:
  "\<forall>x\<in>set xs. x \<notin> ID ` set (pending q) \<Longrightarrow> pending q = ps1 @ t # ps2 \<Longrightarrow> ID t = k \<Longrightarrow> k \<notin> ID ` set ps1
   \<Longrightarrow> EvictAtOnce (xs @ k # ys) q = (q\<lparr>pending := ps1 @ ps2\<rparr>, None)"
proof (induction xs)
  case Nil
  then show ?case using scanRemove_split [of "pending q" ps1 t ps2 k] by simp
next
  case (Cons x xs)
  then have "scanRemove x (pending q) = None" by (simp add: scanRemove_None)
  with Cons show ?case by simp
qed

subsection \<open>The example states, evaluated\<close>

lemmas eval_defs = New_def Push_def Poll_register_def process_def resubmitExpiredPipelines_def
  filterWaiting_def depsInQueue_def processLoop.simps assignToWorker_def assign_def Let_def
  noWorker_def noEntry_def noTask_def taskA_def taskB_def taskS_def taskN_def

lemma leased_eq:
  "leased = \<lparr>workers = [], running = [(''a'', 0)], pending = [], waitingOnDeps = [taskB],
      extension = 600000000000, paused = False,
      entries = (\<lambda>_. noEntry)(0 := \<lparr>item = taskA\<lparr>AgentID := 7\<rparr>, doneClosed = False, error = None,
                                       deadline = 600000000000\<rparr>),
      entryNext = 1,
      workerObjs = (\<lambda>_. noWorker)(0 := \<lparr>agentID = 7, filterFn = (\<lambda>_. True),
                                          channel = Some (taskA\<lparr>AgentID := 7\<rparr>), stop = None\<rparr>),
      workerNext = 1\<rparr>"
  by (simp add: leased_def eval_defs)

lemma queued_eq: "queued = New\<lparr>pending := [taskA, taskB]\<rparr>"
  by (simp add: queued_def Push_def New_def)

lemma runningOK_leased: "runningOK leased"
  by (simp add: leased_eq runningOK_def taskA_def)

lemma runningOK_queued: "runningOK queued"
  by (simp add: queued_eq runningOK_def New_def)

lemma leasedNil_eq:
  "leasedNil = \<lparr>workers = [], running = [(''a'', 0)], pending = [], waitingOnDeps = [taskN],
      extension = 600000000000, paused = False,
      entries = (\<lambda>_. noEntry)(0 := \<lparr>item = taskA\<lparr>AgentID := 7\<rparr>, doneClosed = False, error = None,
                                       deadline = 600000000000\<rparr>),
      entryNext = 1,
      workerObjs = (\<lambda>_. noWorker)(0 := \<lparr>agentID = 7, filterFn = (\<lambda>_. True),
                                          channel = Some (taskA\<lparr>AgentID := 7\<rparr>), stop = None\<rparr>),
      workerNext = 1\<rparr>"
  by (simp add: leasedNil_def eval_defs)

lemma pausedPolled_eq:
  "pausedPolled = \<lparr>workers = [0], running = [], pending = [taskA], waitingOnDeps = [],
      extension = 600000000000, paused = True,
      entries = (\<lambda>_. noEntry), entryNext = 0,
      workerObjs = (\<lambda>_. noWorker)(0 := \<lparr>agentID = 7, filterFn = (\<lambda>_. True),
                                          channel = None, stop = None\<rparr>),
      workerNext = 1\<rparr>"
  by (simp add: pausedPolled_def eval_defs Pause_def)

lemma depMapsFor_leased: "depMapsFor k leased"
  by (simp add: leased_eq depMapsFor_def allTasks_def depMapFor_def taskA_def taskB_def)

lemma depMapsFor_queued: "depMapsFor k queued"
  by (simp add: queued_eq depMapsFor_def allTasks_def depMapFor_def taskA_def taskB_def New_def)

section \<open>The claims\<close>

subsection \<open>C1: one place per task id\<close>

text \<open>
  C1 as stated: after any history from \<open>New\<close>, no task id is in more than one of pending,
  waitingOnDeps and running. It fails when an id is pushed again while its task is running:
  after \<open>Push(a)\<close>, a \<open>Poll\<close>, a dispatcher pass and \<open>Push(a)\<close>, id \<open>a\<close> is a key of
  running and the id of a pending task. \<open>Push\<close> checks nothing.
\<close>

theorem C1_counterexample:
  "\<not> isl (run [OpPush taskA, OpPoll 7 (\<lambda>_. True), OpProcess 0, OpPush taskA] New)
   \<and> \<not> idsDisjoint (projr (run [OpPush taskA, OpPoll 7 (\<lambda>_. True), OpProcess 0, OpPush taskA] New))"
  by (simp add: eval_defs idsDisjoint_def)

text \<open>
  C1, amended: in every state reached from \<open>New\<close> by a history in which each \<open>Push\<close> and
  \<open>PushAtOnce\<close> brings only ids that the queue does not hold at that moment (and no id twice
  in one batch), no task id is in more than one of pending, waitingOnDeps and running. The
  history may hold every operation, dispatcher passes at any time, and any iteration order of
  the two maps. A history reaches a state unless it faults, and it does not fault when every
  task it pushes has an allocated \<open>DepStatus\<close> map.
\<close>

theorem C1_fresh_ids_disjoint:
  "freshRun xs New \<Longrightarrow>
     (run xs New = Inr q \<longrightarrow> idsDisjoint q)
     \<and> (list_all pushesAllocated xs \<longrightarrow> (\<exists>q'. run xs New = Inr q' \<and> idsDisjoint q'))"
proof -
  assume f: "freshRun xs New"
  have inv: "idsDisjoint s" if "run xs New = Inr s" for s
    using f that distinct_ids_run [of New xs s] runningOK_New
    by (simp add: idsDisjoint_distinct queueIDs_def New_def)
  have "\<exists>q'. run xs New = Inr q' \<and> idsDisjoint q'" if "list_all pushesAllocated xs"
    using run_New_total [OF that] inv by blast
  with inv show ?thesis by blast
qed

theorem C1_fresh_ids_disjoint_witness:
  "freshRun [OpPush taskA, OpPush taskB, OpPoll 7 (\<lambda>_. True), OpProcess 0] New
   \<and> list_all pushesAllocated [OpPush taskA, OpPush taskB, OpPoll 7 (\<lambda>_. True), OpProcess 0]
   \<and> run [OpPush taskA, OpPush taskB, OpPoll 7 (\<lambda>_. True), OpProcess 0] New = Inr leased
   \<and> idsDisjoint leased"
proof -
  have f: "freshRun [OpPush taskA, OpPush taskB, OpPoll 7 (\<lambda>_. True), OpProcess 0] New"
    by (simp add: eval_defs queueIDs_def)
  have a: "list_all pushesAllocated [OpPush taskA, OpPush taskB, OpPoll 7 (\<lambda>_. True), OpProcess 0]"
    by (simp add: taskA_def taskB_def)
  have r: "run [OpPush taskA, OpPush taskB, OpPoll 7 (\<lambda>_. True), OpProcess 0] New = Inr leased"
    by (simp add: leased_def eval_defs)
  from C1_fresh_ids_disjoint [OF f, of leased] r have "idsDisjoint leased" by blast
  with f a r show ?thesis by simp
qed

subsection \<open>C2: the dispatcher pass of a paused queue\<close>

text \<open>
  C2 as stated: a pass of a paused queue still runs the lease-expiry sweep. It does not:
  \<open>process\<close> tests \<open>paused\<close> before it calls \<open>resubmitExpiredPipelines\<close>. In the paused
  state below the lease of \<open>a\<close> ran out at \<open>600000000000\<close>; after a pass one nanosecond
  later \<open>a\<close> is still running and pending is still empty.
\<close>

theorem C2_counterexample:
  "paused (Pause leased) \<and> map_of (running (Pause leased)) ''a'' = Some 0
   \<and> deadline (entries (Pause leased) 0) < 600000000001
   \<and> \<not> isl (process 600000000001 (Pause leased))
   \<and> map_of (running (projr (process 600000000001 (Pause leased)))) ''a'' = Some 0
   \<and> pending (projr (process 600000000001 (Pause leased))) = []"
  by (simp add: leased_eq Pause_def process_def)

text \<open>
  C2, amended: while the queue is paused a dispatcher pass returns at once and changes
  nothing: no lease expires, no waiting task is re-admitted or gated, and no task is assigned
  to a worker.
\<close>

theorem C2_paused_pass_changes_nothing:
  "paused q \<Longrightarrow> process now q = Inr q"
  by (simp add: process_def)

theorem C2_paused_pass_changes_nothing_witness:
  "paused (Pause leased) \<and> process 600000000001 (Pause leased) = Inr (Pause leased)"
proof -
  have p: "paused (Pause leased)" by (simp add: Pause_def)
  from p C2_paused_pass_changes_nothing [OF p, of 600000000001] show ?thesis by simp
qed

subsection \<open>C3: Wait after Done or Error\<close>

text \<open>
  C3 as stated: a \<open>Wait(id)\<close> issued after \<open>Error(id, err)\<close> returns \<open>err\<close>. It returns
  \<open>nil\<close>: \<open>finished\<close> stores the error in the entry and deletes the entry from running, and
  \<open>Wait\<close> returns \<open>nil\<close> for an id that is not running.
\<close>

theorem C3_counterexample:
  "\<not> isl (Error ''a'' (Some (ErrMsg ''boom'')) leased)
   \<and> Wait_lookup ''a'' (fst (projr (Error ''a'' (Some (ErrMsg ''boom'')) leased)))
       \<noteq> WaitReturned (Some (ErrMsg ''boom''))"
  by (simp add: leased_eq Error_def finished_def finishOne_def updateDepStatusInQueue_eq
      depMapsFor_def allTasks_def depMapFor_def taskA_def taskB_def Wait_lookup_def)

text \<open>
  C3, amended: when \<open>Done(id)\<close> or \<open>Error(id, err)\<close> returns, it returns \<open>nil\<close>, and in the
  state that it leaves, as in any state in which \<open>id\<close> is not running, \<open>Wait(id)\<close> returns at
  once and returns \<open>nil\<close>, whatever error was recorded. The recorded error reaches only the
  \<open>Wait\<close> calls that were blocked on the entry of \<open>id\<close> before: for such a call the case of
  \<open>done\<close> was not ready, and after \<open>Error(id, err)\<close> it is ready and returns \<open>err\<close>, after
  \<open>Done(id)\<close> \<open>nil\<close>. \<open>Done\<close> and \<open>Error\<close> return when every queued task that lists \<open>id\<close>
  has an allocated \<open>DepStatus\<close> map. The state before is any state with a well-formed
  running map, which every state reachable from \<open>New\<close> has.
\<close>

theorem C3_wait_after_finish_returns_nil:
  "runningOK q \<Longrightarrow>
     (Done k st q = Inr (q', r) \<longrightarrow>
        r = None \<and> Wait_lookup k q' = WaitReturned None
        \<and> (\<forall>a. Wait_lookup k q = WaitBlocked a \<longrightarrow>
              Wait_select a ChanReady q = None \<and> Wait_select a ChanReady q' = Some None))
     \<and> (Error k err q = Inr (q', r) \<longrightarrow>
        r = None \<and> Wait_lookup k q' = WaitReturned None
        \<and> (\<forall>a. Wait_lookup k q = WaitBlocked a \<longrightarrow>
              Wait_select a ChanReady q = None \<and> Wait_select a ChanReady q' = Some err))
     \<and> (depMapsFor k q \<longrightarrow>
          (\<exists>q1. Done k st q = Inr (q1, None)) \<and> (\<exists>q1. Error k err q = Inr (q1, None)))
     \<and> (map_of (running s) k = None \<longrightarrow> Wait_lookup k s = WaitReturned None)"
proof -
  assume ok: "runningOK q"
  have ret: "r = None \<and> Wait_lookup k q' = WaitReturned None
        \<and> (\<forall>a. Wait_lookup k q = WaitBlocked a \<longrightarrow>
              Wait_select a ChanReady q = None \<and> Wait_select a ChanReady q' = Some e)"
    if f: "finished [k] x e q = Inr (q', r)" for x e
  proof -
    from f have one: "finishOne x e k q = Inr q'" and r: "r = None"
      by (simp_all add: finished_single)
    have gone: "map_of (running q') k = None" using one by (rule finishOne_not_running_after)
    have "Wait_select a ChanReady q = None \<and> Wait_select a ChanReady q' = Some e"
      if "Wait_lookup k q = WaitBlocked a" for a
    proof -
      from that have m: "map_of (running q) k = Some a"
        by (auto simp: Wait_lookup_def split: option.splits)
      then have "(k, a) \<in> set (running q)" by (rule map_of_SomeD)
      with ok have "\<not> doneClosed (entries q a)" by (auto simp: runningOK_iff)
      with finishOne_entry(1) [OF ok m one] show ?thesis by (simp add: Wait_select_def)
    qed
    with r gone show ?thesis by (simp add: Wait_lookup_def)
  qed
  have tot: "\<exists>q1. finished [k] x e q = Inr (q1, None)" if "depMapsFor k q" for x e
    using finished_total [OF ok, of "[k]" x e] that by simp
  show ?thesis
    using ret [of st None] ret [of StatusFailure err] tot [of st None] tot [of StatusFailure err]
    by (simp add: Done_def Error_def Wait_lookup_def)
qed

theorem C3_wait_after_finish_returns_nil_witness:
  "runningOK leased \<and> depMapsFor ''a'' leased \<and> Wait_lookup ''a'' leased = WaitBlocked 0
   \<and> Error ''a'' (Some (ErrMsg ''boom'')) leased
     = Inr (fst (projr (Error ''a'' (Some (ErrMsg ''boom'')) leased)), None)
   \<and> Wait_lookup ''a'' (fst (projr (Error ''a'' (Some (ErrMsg ''boom'')) leased))) = WaitReturned None
   \<and> Wait_select 0 ChanReady (fst (projr (Error ''a'' (Some (ErrMsg ''boom'')) leased)))
     = Some (Some (ErrMsg ''boom''))"
proof -
  have ok: "runningOK leased" by (rule runningOK_leased)
  have d: "depMapsFor ''a'' leased" by (rule depMapsFor_leased)
  have b: "Wait_lookup ''a'' leased = WaitBlocked 0" by (simp add: leased_eq Wait_lookup_def)
  from C3_wait_after_finish_returns_nil
    [OF ok, of "''a''" StatusFailure _ _ "Some (ErrMsg ''boom'')" leased] d
  obtain q1 where e: "Error ''a'' (Some (ErrMsg ''boom'')) leased = Inr (q1, None)" by blast
  from C3_wait_after_finish_returns_nil
    [OF ok, of "''a''" StatusFailure q1 None "Some (ErrMsg ''boom'')" leased] e b
  have "Wait_lookup ''a'' q1 = WaitReturned None"
    "Wait_select 0 ChanReady q1 = Some (Some (ErrMsg ''boom''))"
    by blast+
  with ok d b e show ?thesis by simp
qed

subsection \<open>C4: the finish procedure\<close>

text \<open>
  C4 as stated: \<open>finished\<close> never fails. It panics when a task left in the queue lists the
  finished id and has a nil \<open>DepStatus\<close> map: \<open>updateDepStatusInQueue\<close> assigns to an entry
  of that map. \<open>Push\<close> accepts such a task. Below, \<open>n\<close> depends on \<open>a\<close>, has a nil map and
  waits while \<open>a\<close> runs; \<open>Done(a)\<close> panics.
\<close>

theorem C4_counterexample:
  "run [OpPush taskA, OpPush taskN, OpPoll 7 (\<lambda>_. True), OpProcess 0] New = Inr leasedNil
   \<and> Done ''a'' (StatusOther ''success'') leasedNil = Inl AssignToNilMap"
  by (simp add: leasedNil_def eval_defs taskN_def Done_def finished_def finishOne_def
      updateDepStatusInQueue_def setDepStatus_def)

text \<open>
  C4, amended: \<open>finished\<close> (reached from \<open>Done\<close>, \<open>Error\<close> and \<open>ErrorAtOnce\<close>) returns only
  \<open>nil\<close>, and it returns when, for each of its ids, every task in pending, waitingOnDeps and
  running that lists the id has an allocated \<open>DepStatus\<close> map; the only way a turn of its
  loop fails is the assignment to a nil map, and no \<open>close\<close> panics. Under that condition
  each turn, for the id \<open>k\<close> and with the remaining ids \<open>ids\<close>, does this: when \<open>k\<close> is
  running, the entry gets the error, its \<open>done\<close> is closed and the entry leaves running, and
  no task leaves pending; when \<open>k\<close> is not running, the first pending task of that id is
  removed and running is left alone; when \<open>k\<close> is in neither, nothing is removed. In all
  cases the status is written to \<open>DepStatus[k]\<close> of every task in pending, waitingOnDeps and
  running that lists \<open>k\<close> as a dependency, and to no other task. The state is any state with
  a well-formed running map, which every state reachable from \<open>New\<close> has (lemma
  \<open>runningOK_reachable\<close>).
\<close>

theorem C4_finished:
  "runningOK q \<Longrightarrow>
     (finished ids st err q = Inr (q', r) \<longrightarrow> r = None)
     \<and> ((\<forall>j\<in>set ids. depMapsFor j q) \<longrightarrow> (\<exists>q'. finished ids st err q = Inr (q', None)))
     \<and> (\<forall>f. finishOne st err k q = Inl f \<longrightarrow> f = AssignToNilMap \<and> \<not> depMapsFor k q)
     \<and> (depMapsFor k q \<longrightarrow>
          (\<exists>q1. finishOne st err k q = Inr q1 \<and> runningOK q1
             \<and> finished (k # ids) st err q = finished ids st err q1
             \<and> (\<forall>a. map_of (running q) k = Some a \<longrightarrow>
                   entries q1 a = (entries q a)\<lparr>error := err, doneClosed := True\<rparr>
                   \<and> running q1 = AList.delete k (running q)
                   \<and> pending q1 = map (withDepStatus k st) (pending q))
             \<and> (map_of (running q) k = None \<longrightarrow>
                   running q1 = running q
                   \<and> (\<forall>xs t ys. pending q = xs @ t # ys \<and> ID t = k \<and> k \<notin> ID ` set xs \<longrightarrow>
                         pending q1 = map (withDepStatus k st) (xs @ ys))
                   \<and> (k \<notin> ID ` set (pending q) \<longrightarrow>
                         pending q1 = map (withDepStatus k st) (pending q)))
             \<and> waitingOnDeps q1 = map (withDepStatus k st) (waitingOnDeps q)
             \<and> (\<forall>(k', a)\<in>set (running q1).
                   item (entries q1 a) = withDepStatus k st (item (entries q a)))))
     \<and> Done k st q = finished [k] st None q
     \<and> Error k err q = finished [k] StatusFailure err q
     \<and> ErrorAtOnce ids err q = finished ids StatusFailure err q
     \<and> (\<forall>t. setDepStatus k st t =
              (if k \<in> set (Dependencies t)
               then (case DepStatus t of
                       None \<Rightarrow> Inl AssignToNilMap
                     | Some m \<Rightarrow> Inr (t\<lparr>DepStatus := Some (m(k \<mapsto> st))\<rparr>))
               else Inr t))
     \<and> (\<forall>t. withDepStatus k st t =
              (if k \<in> set (Dependencies t)
               then t\<lparr>DepStatus := map_option (\<lambda>m. m(k \<mapsto> st)) (DepStatus t)\<rparr> else t))"
proof -
  assume ok: "runningOK q"
  have step: "\<exists>q1. finishOne st err k q = Inr q1 \<and> runningOK q1
             \<and> finished (k # ids) st err q = finished ids st err q1
             \<and> (\<forall>a. map_of (running q) k = Some a \<longrightarrow>
                   entries q1 a = (entries q a)\<lparr>error := err, doneClosed := True\<rparr>
                   \<and> running q1 = AList.delete k (running q)
                   \<and> pending q1 = map (withDepStatus k st) (pending q))
             \<and> (map_of (running q) k = None \<longrightarrow>
                   running q1 = running q
                   \<and> (\<forall>xs t ys. pending q = xs @ t # ys \<and> ID t = k \<and> k \<notin> ID ` set xs \<longrightarrow>
                         pending q1 = map (withDepStatus k st) (xs @ ys))
                   \<and> (k \<notin> ID ` set (pending q) \<longrightarrow>
                         pending q1 = map (withDepStatus k st) (pending q)))
             \<and> waitingOnDeps q1 = map (withDepStatus k st) (waitingOnDeps q)
             \<and> (\<forall>(k', a)\<in>set (running q1).
                   item (entries q1 a) = withDepStatus k st (item (entries q a)))"
    if d: "depMapsFor k q"
  proof -
    from finishOne_total [OF ok d, of st err] obtain q1 where f: "finishOne st err k q = Inr q1"
      by blast
    show ?thesis
      using f runningOK_finishOne [OF ok f] finished_Cons [OF f, of ids]
        finishOne_entry [OF ok _ f] finishOne_pending [OF _ f] finishOne_written [OF ok f]
      by (intro exI [of _ q1]) blast
  qed
  have s: "setDepStatus k st t =
              (if k \<in> set (Dependencies t)
               then (case DepStatus t of
                       None \<Rightarrow> Inl AssignToNilMap
                     | Some m \<Rightarrow> Inr (t\<lparr>DepStatus := Some (m(k \<mapsto> st))\<rparr>))
               else Inr t)" for t
    by (simp add: setDepStatus_def setDepLoop_eq)
  show ?thesis
    using finished_Inr [of ids st err q q' r] finished_total [OF ok, of ids st err]
      finishOne_fault [OF ok, of st err k] step s
    by (simp add: withDepStatus_def Done_def Error_def ErrorAtOnce_def)
qed

theorem C4_finished_witness:
  "runningOK leased
   \<and> Done ''a'' (StatusOther ''success'') leased
       = Inr (fst (projr (Done ''a'' (StatusOther ''success'') leased)), None)
   \<and> running (fst (projr (Done ''a'' (StatusOther ''success'') leased))) = []
   \<and> entries (fst (projr (Done ''a'' (StatusOther ''success'') leased))) 0
       = (entries leased 0)\<lparr>error := None, doneClosed := True\<rparr>
   \<and> waitingOnDeps (fst (projr (Done ''a'' (StatusOther ''success'') leased)))
       = [taskB\<lparr>DepStatus := Some [''a'' \<mapsto> StatusOther ''success'']\<rparr>]
   \<and> runningOK queued
   \<and> Error ''a'' (Some (ErrMsg ''boom'')) queued
       = Inr (fst (projr (Error ''a'' (Some (ErrMsg ''boom'')) queued)), None)
   \<and> pending (fst (projr (Error ''a'' (Some (ErrMsg ''boom'')) queued)))
       = [taskB\<lparr>DepStatus := Some [''a'' \<mapsto> StatusFailure]\<rparr>]"
proof -
  have ok: "runningOK leased" by (rule runningOK_leased)
  have d: "\<forall>j\<in>set [''a'']. depMapsFor j leased" "depMapsFor ''a'' leased"
    by (simp_all add: depMapsFor_leased)
  have m: "map_of (running leased) ''a'' = Some 0" by (simp add: leased_eq)
  from C4_finished [OF ok, of "[''a'']" "StatusOther ''success''" None _ _ "''a''"] d m
  obtain q' q1 where
    t: "finished [''a''] (StatusOther ''success'') None leased = Inr (q', None)"
    and s: "finishOne (StatusOther ''success'') None ''a'' leased = Inr q1"
    and e: "entries q1 0 = (entries leased 0)\<lparr>error := None, doneClosed := True\<rparr>"
    and r: "running q1 = AList.delete ''a'' (running leased)"
    and w: "waitingOnDeps q1 = map (withDepStatus ''a'' (StatusOther ''success'')) (waitingOnDeps leased)"
    by blast
  have q: "q' = q1" using t s by (simp add: finished_def)
  have r1: "running q1 = []" using r by (simp add: leased_eq)
  have w1: "waitingOnDeps q1 = [taskB\<lparr>DepStatus := Some [''a'' \<mapsto> StatusOther ''success'']\<rparr>]"
    using w by (simp add: leased_eq withDepStatus_def taskB_def)
  have ok2: "runningOK queued" by (rule runningOK_queued)
  have d2: "\<forall>j\<in>set [''a'']. depMapsFor j queued" "depMapsFor ''a'' queued"
    by (simp_all add: depMapsFor_queued)
  have m2: "map_of (running queued) ''a'' = None"
    and p2: "pending queued = [] @ taskA # [taskB] \<and> ID taskA = ''a'' \<and> ''a'' \<notin> ID ` set []"
    by (simp_all add: queued_eq New_def taskA_def)
  from C4_finished [OF ok2, of "[''a'']" StatusFailure "Some (ErrMsg ''boom'')" _ _ "''a''"] d2 m2 p2
  obtain p' p1 where
    t2: "finished [''a''] StatusFailure (Some (ErrMsg ''boom'')) queued = Inr (p', None)"
    and s2: "finishOne StatusFailure (Some (ErrMsg ''boom'')) ''a'' queued = Inr p1"
    and g2: "pending p1 = map (withDepStatus ''a'' StatusFailure) ([] @ [taskB])"
    by blast
  have q2: "p' = p1" using t2 s2 by (simp add: finished_def)
  have g: "pending p1 = [taskB\<lparr>DepStatus := Some [''a'' \<mapsto> StatusFailure]\<rparr>]"
    using g2 by (simp add: withDepStatus_def taskB_def)
  show ?thesis
    using ok t q e r1 w1 ok2 t2 q2 g by (simp add: Done_def Error_def)
qed

subsection \<open>C5: the lease-expiry sweep\<close>

text \<open>
  C5 as stated: in a dispatcher pass every running entry whose deadline has passed is pushed
  to the front of pending, deleted from running and closed. A pass of a paused queue returns
  before the sweep: below, the lease of \<open>a\<close> ran out at \<open>600000000000\<close>, and after a pass at
  \<open>700000000000\<close> its entry is still in running, its \<open>done\<close> is open and its task is not
  pending.
\<close>

theorem C5_counterexample:
  "paused (Pause leased) \<and> runningOK (Pause leased)
   \<and> expired 700000000000 (Pause leased) (''a'', 0)
   \<and> process 700000000000 (Pause leased) = Inr (Pause leased)
   \<and> \<not> doneClosed (entries (Pause leased) 0)
   \<and> item (entries (Pause leased) 0) \<notin> set (pending (Pause leased))
   \<and> map_of (running (Pause leased)) ''a'' = Some 0"
  by (simp add: leased_eq Pause_def process_def expired_def runningOK_def taskA_def)

text \<open>
  C5, amended: in a dispatcher pass of a queue that is not paused, the sweep
  (\<open>resubmitExpiredPipelines\<close>, which such a pass runs first) does not fail; every running
  entry whose deadline is strictly before \<open>now\<close> has its task pushed to the front of pending,
  leaves the running map, and has its \<open>done\<close> closed with the error still \<open>nil\<close>; every
  other running entry stays in the map and is unchanged. The tasks of several expired entries
  are at the front of pending in the reverse of the iteration order, each having been pushed
  to the front in its turn. The state is any state with a well-formed running map, which
  every state reachable from \<open>New\<close> has (lemma \<open>runningOK_reachable\<close>).
\<close>

theorem C5_lease_expiry_sweep:
  "runningOK q \<Longrightarrow>
     (\<exists>q'. resubmitExpiredPipelines now q = Inr q'
        \<and> pending q' = rev (map (\<lambda>(k, a). item (entries q a)) (filter (expired now q) (running q)))
                         @ pending q
        \<and> running q' = filter (\<lambda>e. \<not> expired now q e) (running q)
        \<and> waitingOnDeps q' = waitingOnDeps q \<and> workers q' = workers q
        \<and> (\<not> paused q \<longrightarrow> process now q = processLoop now (filterWaiting q'))
        \<and> (\<forall>(k, a)\<in>set (running q).
              (expired now q (k, a) \<longrightarrow>
                 map_of (running q') k = None
                 \<and> entries q' a = (entries q a)\<lparr>doneClosed := True\<rparr>
                 \<and> error (entries q' a) = None)
              \<and> (\<not> expired now q (k, a) \<longrightarrow>
                 map_of (running q') k = Some a \<and> entries q' a = entries q a)))"
proof -
  assume ok: "runningOK q"
  let ?E = "filter (expired now q) (running q)"
  let ?q' = "q\<lparr>pending := rev (map (\<lambda>(k, a). item (entries q a)) ?E) @ pending q,
               running := filter (\<lambda>e. \<not> expired now q e) (running q),
               entries := (\<lambda>a. if a \<in> snd ` set ?E
                                then (entries q a)\<lparr>doneClosed := True\<rparr> else entries q a)\<rparr>"
  have eq: "resubmitExpiredPipelines now q = Inr ?q'"
    using ok by (rule resubmitExpiredPipelines_eq)
  from ok have dk: "distinct (map fst (running q))" by (simp add: runningOK_iff)
  have A: "map_of (running ?q') k = None \<and> entries ?q' a = (entries q a)\<lparr>doneClosed := True\<rparr>
        \<and> error (entries ?q' a) = None"
    if "(k, a) \<in> set (running q)" "expired now q (k, a)" for k a
    using that ok map_of_filter_drop [OF dk that(1), of "\<lambda>e. \<not> expired now q e"]
    by (auto simp: runningOK_iff image_iff)
  have B: "map_of (running ?q') k = Some a \<and> entries ?q' a = entries q a"
    if "(k, a) \<in> set (running q)" "\<not> expired now q (k, a)" for k a
  proof -
    have "a \<notin> snd ` set ?E"
      using that ok by (auto simp: runningOK_iff image_iff expired_def dest: distinct_snd_neq)
    then show ?thesis
      using that map_of_filter_keep [OF dk that(1), of "\<lambda>e. \<not> expired now q e"] by simp
  qed
  have all: "\<forall>(k, a)\<in>set (running q).
              (expired now q (k, a) \<longrightarrow>
                 map_of (running ?q') k = None
                 \<and> entries ?q' a = (entries q a)\<lparr>doneClosed := True\<rparr>
                 \<and> error (entries ?q' a) = None)
              \<and> (\<not> expired now q (k, a) \<longrightarrow>
                 map_of (running ?q') k = Some a \<and> entries ?q' a = entries q a)"
    using A B by blast
  have p: "pending ?q' = rev (map (\<lambda>(k, a). item (entries q a)) ?E) @ pending q"
    and r: "running ?q' = filter (\<lambda>e. \<not> expired now q e) (running q)"
    and w: "waitingOnDeps ?q' = waitingOnDeps q" "workers ?q' = workers q"
    by simp_all
  have pr: "\<not> paused q \<longrightarrow> process now q = processLoop now (filterWaiting ?q')"
    by (simp add: process_def eq)
  show ?thesis
    using eq p r w pr all by blast
qed

theorem C5_lease_expiry_sweep_witness:
  "runningOK leased
   \<and> resubmitExpiredPipelines 600000000001 leased
       = Inr (leased\<lparr>pending := [taskA\<lparr>AgentID := 7\<rparr>], running := [],
                     entries := (entries leased)(0 := (entries leased 0)\<lparr>doneClosed := True\<rparr>)\<rparr>)
   \<and> error (entries leased 0) = None"
proof -
  have ok: "runningOK leased" by (rule runningOK_leased)
  have x: "expired 600000000001 leased (''a'', 0)" by (simp add: expired_def leased_eq)
  from C5_lease_expiry_sweep [OF ok, of 600000000001] obtain q' where
    r: "resubmitExpiredPipelines 600000000001 leased = Inr q'" by blast
  have "q' = leased\<lparr>pending := [taskA\<lparr>AgentID := 7\<rparr>], running := [],
                     entries := (entries leased)(0 := (entries leased 0)\<lparr>doneClosed := True\<rparr>)\<rparr>"
    using r by (simp add: leased_eq resubmitExpiredPipelines_def)
  with ok r show ?thesis by (simp add: leased_eq)
qed

subsection \<open>C6: the dep-gating predicate\<close>

text \<open>
  C6 as stated: \<open>depsInQueue(t)\<close> looks for the dependencies of \<open>t\<close> among the pending
  tasks other than \<open>t\<close> itself, so that a task whose only dependency is its own id is not
  gated. The code compares with every pending task, \<open>t\<close> included: a pending task that lists
  its own id is gated.
\<close>

theorem C6_counterexample:
  "depsInQueue (New\<lparr>pending := [taskS]\<rparr>) taskS
   \<and> \<not> depsInQueue_spec (New\<lparr>pending := [taskS]\<rparr>) taskS"
  by (simp add: depsInQueue_def depsInQueue_spec_def New_def taskS_def)

text \<open>
  C6, amended: \<open>depsInQueue(t)\<close> is true if and only if some dependency of \<open>t\<close> is the id of
  a pending task (\<open>t\<close> itself included) or a key of the running map; in particular a pending
  task that lists its own id as a dependency is gated.
\<close>

theorem C6_depsInQueue:
  "(depsInQueue q task \<longleftrightarrow>
      (\<exists>dep\<in>set (Dependencies task). dep \<in> ID ` set (pending q) \<or> dep \<in> fst ` set (running q)))
   \<and> (task \<in> set (pending q) \<and> ID task \<in> set (Dependencies task) \<longrightarrow> depsInQueue q task)"
  by (auto simp: depsInQueue_def list_ex_iff)

theorem C6_depsInQueue_witness:
  "depsInQueue queued taskB \<and> \<not> depsInQueue queued taskA
   \<and> taskS \<in> set (pending (New\<lparr>pending := [taskS]\<rparr>)) \<and> ID taskS \<in> set (Dependencies taskS)
   \<and> depsInQueue (New\<lparr>pending := [taskS]\<rparr>) taskS"
proof -
  have b: "\<exists>dep\<in>set (Dependencies taskB). dep \<in> ID ` set (pending queued) \<or> dep \<in> fst ` set (running queued)"
    by (simp add: queued_eq taskA_def taskB_def New_def)
  have a: "\<not> (\<exists>dep\<in>set (Dependencies taskA). dep \<in> ID ` set (pending queued) \<or> dep \<in> fst ` set (running queued))"
    by (simp add: taskA_def)
  have s: "taskS \<in> set (pending (New\<lparr>pending := [taskS]\<rparr>)) \<and> ID taskS \<in> set (Dependencies taskS)"
    by (simp add: taskS_def)
  from a b s C6_depsInQueue [of queued taskB] C6_depsInQueue [of queued taskA]
    C6_depsInQueue [of "New\<lparr>pending := [taskS]\<rparr>" taskS]
  show ?thesis by blast
qed

subsection \<open>C7: cancellation of Poll and Wait\<close>

text \<open>
  C7 as stated: a blocked \<open>Wait\<close> whose context is cancelled returns \<open>ctx.Err()\<close>. It returns
  \<open>nil\<close>: the case of \<open>c.Done()\<close> in its \<open>select\<close> has an empty body. Below, \<open>Wait(a)\<close>
  blocks on the entry at address 0, and the cancellation makes it return \<open>nil\<close>.
\<close>

theorem C7_counterexample:
  "Wait_lookup ''a'' leased = WaitBlocked 0
   \<and> Wait_select 0 (CtxDone ContextCanceled) leased = Some None
   \<and> Wait_select 0 (CtxDone ContextCanceled) leased \<noteq> Some (Some ContextCanceled)"
  by (simp add: leased_eq Wait_lookup_def Wait_select_def)

text \<open>
  C7, amended: when the context of a blocked \<open>Poll\<close> is cancelled, \<open>Poll\<close> returns no task
  and the error \<open>ctx.Err()\<close>, and the worker it registered is out of the workers set when it
  returns (nothing else of the queue changes); when the context of a blocked \<open>Wait\<close> is
  cancelled, \<open>Wait\<close> returns \<open>nil\<close>.
\<close>

theorem C7_cancellation:
  "(\<exists>q'. Poll_select w (CtxDone e) q = Some (q', None, Some e)
         \<and> w \<notin> set (workers q') \<and> set (workers q') = set (workers q) - {w}
         \<and> running q' = running q \<and> pending q' = pending q \<and> waitingOnDeps q' = waitingOnDeps q)
   \<and> Wait_select state (CtxDone e) q = Some None"
  by (simp add: Poll_select_def Wait_select_def)

subsection \<open>C8: EvictAtOnce\<close>

text \<open>
  C8: \<open>EvictAtOnce(ids)\<close> tries the ids in list order: for the first id that some pending
  task has, it removes the first pending task of that id and returns \<open>nil\<close>, without trying
  the ids after it; when no id of the list is the id of a pending task it returns
  \<open>ErrNotFound\<close> and changes nothing. It never changes running or waitingOnDeps, so an id
  that is only running or only waiting gives \<open>ErrNotFound\<close>. \<open>Evict(id)\<close> is
  \<open>EvictAtOnce([id])\<close>.
\<close>

theorem C8_EvictAtOnce:
  "running (fst (EvictAtOnce ids q)) = running q
   \<and> waitingOnDeps (fst (EvictAtOnce ids q)) = waitingOnDeps q
   \<and> Evict k q = EvictAtOnce [k] q
   \<and> ((\<forall>x\<in>set ids. x \<notin> ID ` set (pending q)) \<longrightarrow> EvictAtOnce ids q = (q, Some ErrNotFound))
   \<and> ((\<forall>x\<in>set xs. x \<notin> ID ` set (pending q)) \<and> pending q = ps1 @ t # ps2 \<and> ID t = k
        \<and> k \<notin> ID ` set ps1
        \<longrightarrow> EvictAtOnce (xs @ k # ys) q = (q\<lparr>pending := ps1 @ ps2\<rparr>, None))"
proof (intro conjI impI)
  show "running (fst (EvictAtOnce ids q)) = running q"
    and "waitingOnDeps (fst (EvictAtOnce ids q)) = waitingOnDeps q"
    by simp_all
  show "Evict k q = EvictAtOnce [k] q" by (simp only: Evict_def)
  show "EvictAtOnce ids q = (q, Some ErrNotFound)" if "\<forall>x\<in>set ids. x \<notin> ID ` set (pending q)"
    using that by (rule EvictAtOnce_NotFound)
  show "EvictAtOnce (xs @ k # ys) q = (q\<lparr>pending := ps1 @ ps2\<rparr>, None)"
    if "(\<forall>x\<in>set xs. x \<notin> ID ` set (pending q)) \<and> pending q = ps1 @ t # ps2 \<and> ID t = k
        \<and> k \<notin> ID ` set ps1"
    using that EvictAtOnce_first [of xs q ps1 t ps2 k ys] by blast
qed

theorem C8_EvictAtOnce_witness:
  "EvictAtOnce [''x'', ''b'', ''a''] queued = (queued\<lparr>pending := [taskA]\<rparr>, None)
   \<and> EvictAtOnce [''a'', ''b''] leased = (leased, Some ErrNotFound)
   \<and> running leased = [(''a'', 0)] \<and> waitingOnDeps leased = [taskB]"
proof -
  have h1: "(\<forall>x\<in>set [''x'']. x \<notin> ID ` set (pending queued)) \<and> pending queued = [taskA] @ taskB # []
      \<and> ID taskB = ''b'' \<and> ''b'' \<notin> ID ` set [taskA]"
    by (simp add: queued_eq taskA_def taskB_def New_def)
  have h2: "\<forall>x\<in>set [''a'', ''b'']. x \<notin> ID ` set (pending leased)"
    by (simp add: leased_eq)
  from h1 C8_EvictAtOnce [of "[]" queued "''b''" "[''x'']" "[taskA]" taskB "[]" "[''a'']"]
  have "EvictAtOnce ([''x''] @ ''b'' # [''a'']) queued = (queued\<lparr>pending := [taskA] @ []\<rparr>, None)"
    by blast
  then have "EvictAtOnce [''x'', ''b'', ''a''] queued = (queued\<lparr>pending := [taskA]\<rparr>, None)"
    by (simp del: EvictAtOnce.simps)
  moreover from h2 C8_EvictAtOnce [of "[''a'', ''b'']" leased "''a''" "[]" "[]" taskA "[]" "[]"]
  have "EvictAtOnce [''a'', ''b''] leased = (leased, Some ErrNotFound)"
    by blast
  ultimately show ?thesis by (simp add: leased_eq)
qed

subsection \<open>C9: Pause and Resume\<close>

text \<open>
  C9 as stated: \<open>Pause\<close> followed by \<open>Resume\<close> leaves pending, waitingOnDeps and running as
  they were. \<open>Resume\<close> starts a dispatcher pass, and that pass changes them: below, the queue
  is paused, \<open>a\<close> is pending and a worker polls; after \<open>Pause\<close> and \<open>Resume\<close> task \<open>a\<close> is
  running and pending is empty.
\<close>

theorem C9_counterexample:
  "run [OpPause, OpPush taskA, OpProcess 0, OpPoll 7 (\<lambda>_. True), OpProcess 0] New = Inr pausedPolled
   \<and> pending pausedPolled = [taskA] \<and> running pausedPolled = []
   \<and> \<not> isl (Resume 0 (Pause pausedPolled))
   \<and> pending (projr (Resume 0 (Pause pausedPolled))) = []
   \<and> running (projr (Resume 0 (Pause pausedPolled))) = [(''a'', 0)]"
  by (simp add: pausedPolled_eq pausedPolled_def Resume_def Resume_flag_def Pause_def eval_defs)

text \<open>
  C9, amended: \<open>Pause\<close> changes only the flag and is idempotent; the flag write of \<open>Resume\<close>
  changes only the flag and is idempotent. \<open>Resume\<close> then runs a dispatcher pass, so
  \<open>Pause\<close> followed by \<open>Resume\<close> leaves the queue as \<open>Resume\<close> alone does, which is the state
  after one dispatcher pass on the queue with the flag cleared (on the queue itself when it
  was not paused): pending, waitingOnDeps and running change as that pass changes them. A
  \<open>Resume\<close> after a \<open>Resume\<close> is one more dispatcher pass.
\<close>

theorem C9_pause_resume:
  "Pause (Pause q) = Pause q
   \<and> pending (Pause q) = pending q \<and> waitingOnDeps (Pause q) = waitingOnDeps q
   \<and> running (Pause q) = running q \<and> entries (Pause q) = entries q
   \<and> Resume_flag (Pause q) = q\<lparr>paused := False\<rparr>
   \<and> Resume_flag (Resume_flag q) = Resume_flag q
   \<and> Resume now (Pause q) = process now (q\<lparr>paused := False\<rparr>)
   \<and> Resume now (Pause q) = Resume now q
   \<and> (\<not> paused q \<longrightarrow> Resume now (Pause q) = process now q)
   \<and> (Resume now q = Inr q1 \<longrightarrow> \<not> paused q1 \<and> Resume now' q1 = process now' q1)"
proof -
  have same: "q\<lparr>paused := False\<rparr> = q" if "\<not> paused q"
    using that by simp
  have np: "process now (q\<lparr>paused := False\<rparr>) = process now q" if "\<not> paused q"
    by (simp only: same [OF that])
  have again: "\<not> paused q1 \<and> Resume now' q1 = process now' q1" if "Resume now q = Inr q1"
  proof -
    from that have "paused q1 = paused (Resume_flag q)"
      unfolding Resume_def by (rule paused_process)
    then have n: "\<not> paused q1" by (simp add: Resume_flag_def)
    then have "Resume_flag q1 = q1" by (simp add: Resume_flag_def)
    with n show ?thesis by (simp add: Resume_def)
  qed
  show ?thesis
    using np again by (simp add: Pause_def Resume_def Resume_flag_def)
qed

theorem C9_pause_resume_witness:
  "\<not> paused leased \<and> Resume 0 (Pause leased) = process 0 leased
   \<and> Resume 0 (Pause pausedPolled) = Inr (projr (Resume 0 (Pause pausedPolled)))
   \<and> \<not> paused (projr (Resume 0 (Pause pausedPolled)))
   \<and> Resume 5 (projr (Resume 0 (Pause pausedPolled)))
       = process 5 (projr (Resume 0 (Pause pausedPolled)))"
proof -
  have n: "\<not> paused leased" by (simp add: leased_eq)
  have r: "Resume 0 (Pause pausedPolled) = Inr (projr (Resume 0 (Pause pausedPolled)))"
    by (simp add: pausedPolled_eq Resume_def Resume_flag_def Pause_def eval_defs)
  from n r C9_pause_resume [of leased 0]
    C9_pause_resume [of "Pause pausedPolled" 0 "projr (Resume 0 (Pause pausedPolled))" 5]
  show ?thesis by blast
qed

subsection \<open>C10: finishing a task that waits on dependencies\<close>



end
